theory Spec2Isabelle
  imports Main
begin

section \<open>JavaScript strings\<close>

text \<open>
  A JavaScript string is modelled as a \<^typ>\<open>string\<close>: the list of its code units, for
  the code units U+0000 to U+00FF. The case mappings and the white space class below are
  those of ECMAScript on that range.
\<close>

definition isWhiteSpace :: "char \<Rightarrow> bool" where
  \<comment> \<open>\<open>WhiteSpace\<close> and \<open>LineTerminator\<close>: what \<open>\s\<close> matches and \<open>trim\<close> removes.\<close>
  "isWhiteSpace c =
     (c \<in> set [CHR 0x09, CHR 0x0A, CHR 0x0B, CHR 0x0C, CHR 0x0D, CHR 0x20, CHR 0xA0])"

definition toLowerChar :: "char \<Rightarrow> char" where
  \<comment> \<open>\<open>A\<close>..\<open>Z\<close> and the Latin-1 capitals U+00C0..U+00DE (without the sign U+00D7).\<close>
  "toLowerChar c =
     (let n = (of_char c :: nat)
      in if (65 \<le> n \<and> n \<le> 90) \<or> (192 \<le> n \<and> n \<le> 222 \<and> n \<noteq> 215)
         then char_of (n + 32) else c)"

definition toLowerCase :: "string \<Rightarrow> string" where
  "toLowerCase s = map toLowerChar s"

definition canonicalize :: "char \<Rightarrow> char" where
  \<comment> \<open>\<open>Canonicalize\<close> of a regular expression with the \<open>i\<close> flag: the upper-case form,
      when it is a single code unit. U+00B5 and U+00FF, whose upper-case forms lie beyond
      U+00FF, stay: no other character of the range shares their canonical form.\<close>
  "canonicalize c =
     (let n = (of_char c :: nat)
      in if (97 \<le> n \<and> n \<le> 122) \<or> (224 \<le> n \<and> n \<le> 254 \<and> n \<noteq> 247)
         then char_of (n - 32) else c)"

fun isPrefixOf :: "string \<Rightarrow> string \<Rightarrow> bool" where
  "isPrefixOf [] s = True"
| "isPrefixOf (p # ps) [] = False"
| "isPrefixOf (p # ps) (c # cs) = (p = c \<and> isPrefixOf ps cs)"

fun str_includes :: "string \<Rightarrow> string \<Rightarrow> bool" where
  \<comment> \<open>\<open>s.includes(sub)\<close>\<close>
  "str_includes [] sub = (sub = [])"
| "str_includes (c # cs) sub = (isPrefixOf sub (c # cs) \<or> str_includes cs sub)"

fun split_on :: "char \<Rightarrow> string \<Rightarrow> string list" where
  \<comment> \<open>\<open>s.split(d)\<close> for a separator of one character; the last case is never reached.\<close>
  "split_on d [] = [[]]"
| "split_on d (c # cs) =
     (if c = d then [] # split_on d cs
      else (case split_on d cs of x # xs \<Rightarrow> (c # x) # xs | [] \<Rightarrow> [[c]]))"

definition js_or :: "string \<Rightarrow> string \<Rightarrow> string" where
  \<comment> \<open>\<open>a || b\<close> on strings: the empty string is falsy.\<close>
  "js_or a b = (if a \<noteq> [] then a else b)"

section \<open>Regular expressions\<close>

text \<open>
  The fragment of ECMAScript regular expressions that the repository uses: single
  characters and character classes, greedy \<open>*\<close>, \<open>+\<close> and \<open>?\<close> on them, sequences and
  capturing groups. A backtracking matcher is modelled by the list of its successes in
  the order in which backtracking reaches them: the head of the list is the match that
  the engine reports.
\<close>

datatype cls =
    Lit char              \<comment> \<open>the character itself\<close>
  | Space                 \<comment> \<open>\<open>\s\<close>\<close>
  | Digit                 \<comment> \<open>\<open>\d\<close>\<close>
  | AnyOf "char list"     \<comment> \<open>\<open>[...]\<close>\<close>
  | NoneOf "char list"    \<comment> \<open>\<open>[^...]\<close>\<close>

datatype re =
    Eps
  | Atom cls
  | Star cls              \<comment> \<open>\<open>k*\<close>, greedy\<close>
  | Opt cls               \<comment> \<open>\<open>k?\<close>, greedy\<close>
  | Seq re re
  | Grp re                \<comment> \<open>\<open>(r)\<close>\<close>

fun accepts :: "bool \<Rightarrow> cls \<Rightarrow> char \<Rightarrow> bool" where
  \<comment> \<open>the first argument is the \<open>i\<close> flag\<close>
  "accepts ci (Lit p) c = (if ci then canonicalize c = canonicalize p else c = p)"
| "accepts ci Space c = isWhiteSpace c"
| "accepts ci Digit c = (c \<in> set ''0123456789'')"
| "accepts ci (AnyOf ps) c =
     (if ci then canonicalize c \<in> set (map canonicalize ps) else c \<in> set ps)"
| "accepts ci (NoneOf ps) c =
     (if ci then canonicalize c \<notin> set (map canonicalize ps) else c \<notin> set ps)"

primrec star :: "bool \<Rightarrow> cls \<Rightarrow> string \<Rightarrow> string list" where
  \<comment> \<open>what is left after \<open>k*\<close>: the longest run first, then each shorter one\<close>
  "star ci k [] = [[]]"
| "star ci k (c # cs) = (if accepts ci k c then star ci k cs @ [c # cs] else [c # cs])"

fun run :: "bool \<Rightarrow> re \<Rightarrow> string \<Rightarrow> (string list \<times> string) list" where
  \<comment> \<open>the matches of \<open>r\<close> at the start of \<open>s\<close>: the captures (in the order of the opening
      parentheses) and the rest of the input\<close>
  "run ci Eps s = [([], s)]"
| "run ci (Atom k) s =
     (case s of [] \<Rightarrow> [] | c # cs \<Rightarrow> if accepts ci k c then [([], cs)] else [])"
| "run ci (Star k) s = map (Pair []) (star ci k s)"
| "run ci (Opt k) s =
     (case s of [] \<Rightarrow> [] | c # cs \<Rightarrow> if accepts ci k c then [([], cs)] else [])
     @ [([], s)]"
| "run ci (Seq a b) s =
     concat (map (\<lambda>(g, t). map (\<lambda>(h, u). (g @ h, u)) (run ci b t)) (run ci a s))"
| "run ci (Grp a) s =
     map (\<lambda>(g, t). (take (length s - length t) s # g, t)) (run ci a s)"

fun exec :: "bool \<Rightarrow> re \<Rightarrow> string \<Rightarrow> (string list \<times> string) option" where
  \<comment> \<open>the leftmost match: the array \<open>[match, group 1, ...]\<close> that \<open>s.match(r)\<close> returns
      for a regular expression without the \<open>g\<close> flag, and the input after the match\<close>
  "exec ci r s =
     (case run ci r s of
        (g, t) # _ \<Rightarrow> Some (take (length s - length t) s # g, t)
      | [] \<Rightarrow> (case s of [] \<Rightarrow> None | _ # cs \<Rightarrow> exec ci r cs))"

definition str_match :: "bool \<Rightarrow> re \<Rightarrow> string \<Rightarrow> string list option" where
  "str_match ci r s = map_option fst (exec ci r s)"

fun seq :: "re list \<Rightarrow> re" where
  "seq [] = Eps"
| "seq [r] = r"
| "seq (r # rs) = Seq r (seq rs)"

definition lits :: "string \<Rightarrow> re" where
  "lits s = seq (map (\<lambda>c. Atom (Lit c)) s)"

definition Plus :: "cls \<Rightarrow> re" where
  "Plus k = Seq (Atom k) (Star k)"

definition first :: "bool \<Rightarrow> re \<Rightarrow> string \<Rightarrow> (string list \<times> string) option" where
  \<comment> \<open>the match that the engine reports at the start of \<open>s\<close>\<close>
  "first ci r s = (case run ci r s of [] \<Rightarrow> None | x # _ \<Rightarrow> Some x)"

text \<open>
  The declarative reading of a regular expression: \<open>lang ci r m g\<close> holds when \<open>r\<close>
  matches exactly the text \<open>m\<close> and its groups capture \<open>g\<close>.
\<close>

fun lang :: "bool \<Rightarrow> re \<Rightarrow> string \<Rightarrow> string list \<Rightarrow> bool" where
  "lang ci Eps m g = (m = [] \<and> g = [])"
| "lang ci (Atom k) m g = ((\<exists>c. m = [c] \<and> accepts ci k c) \<and> g = [])"
| "lang ci (Star k) m g = (list_all (accepts ci k) m \<and> g = [])"
| "lang ci (Opt k) m g = ((m = [] \<or> (\<exists>c. m = [c] \<and> accepts ci k c)) \<and> g = [])"
| "lang ci (Seq a b) m g =
     (\<exists>m1 m2 g1 g2. m = m1 @ m2 \<and> g = g1 @ g2 \<and> lang ci a m1 g1 \<and> lang ci b m2 g2)"
| "lang ci (Grp a) m g = (\<exists>g'. g = m # g' \<and> lang ci a m g')"

section \<open>Paths (Node.js \<open>path.posix\<close>)\<close>

text \<open>
  \<open>path.dirname\<close>, \<open>path.parse(p).root\<close> and \<open>path.join\<close> belong to Node.js, not to the
  repository. They are modelled after the POSIX implementation of the \<open>path\<close> module.
\<close>

fun dirname_scan :: "string \<Rightarrow> nat \<Rightarrow> bool \<Rightarrow> nat option" where
  \<comment> \<open>the loop \<open>for (i = path.length - 1; i >= 1; --i)\<close> of \<open>dirname\<close>: the value of \<open>end\<close>\<close>
  "dirname_scan p 0 matchedSlash = None"
| "dirname_scan p (Suc i) matchedSlash =
     (if p ! Suc i = CHR ''/''
      then (if \<not> matchedSlash then Some (Suc i) else dirname_scan p i matchedSlash)
      else dirname_scan p i False)"

definition path_dirname :: "string \<Rightarrow> string" where
  "path_dirname p =
     (if p = [] then ''.''
      else let hasRoot = (hd p = CHR ''/'')
           in case dirname_scan p (length p - 1) True of
                None \<Rightarrow> if hasRoot then ''/'' else ''.''
              | Some e \<Rightarrow> if hasRoot \<and> e = 1 then ''//'' else take e p)"

definition path_root :: "string \<Rightarrow> string" where
  \<comment> \<open>\<open>path.parse(p).root\<close>\<close>
  "path_root p = (if p \<noteq> [] \<and> hd p = CHR ''/'' then ''/'' else [])"

fun normalizeSegments :: "bool \<Rightarrow> string list \<Rightarrow> string list \<Rightarrow> string list" where
  \<comment> \<open>\<open>normalizeString\<close>, on the segments between the slashes; \<open>res\<close> is kept reversed\<close>
  "normalizeSegments allowAboveRoot res [] = rev res"
| "normalizeSegments allowAboveRoot res (seg # segs) =
     (if seg = [] \<or> seg = ''.'' then normalizeSegments allowAboveRoot res segs
      else if seg = ''..'' then
        (if res \<noteq> [] \<and> hd res \<noteq> ''..'' then normalizeSegments allowAboveRoot (tl res) segs
         else if allowAboveRoot then normalizeSegments allowAboveRoot (''..'' # res) segs
         else normalizeSegments allowAboveRoot res segs)
      else normalizeSegments allowAboveRoot (seg # res) segs)"

fun join_with :: "char \<Rightarrow> string list \<Rightarrow> string" where
  "join_with d [] = []"
| "join_with d [x] = x"
| "join_with d (x # xs) = x @ d # join_with d xs"

definition path_normalize :: "string \<Rightarrow> string" where
  "path_normalize p =
     (if p = [] then ''.''
      else let isAbsolute = (hd p = CHR ''/'');
               trailingSeparator = (last p = CHR ''/'');
               res = join_with CHR ''/''
                       (normalizeSegments (\<not> isAbsolute) [] (split_on CHR ''/'' p))
           in if res = [] then (if isAbsolute then ''/''
                                else if trailingSeparator then ''./'' else ''.'')
              else (if isAbsolute then ''/'' else []) @ res
                   @ (if trailingSeparator then ''/'' else []))"

definition path_join :: "string \<Rightarrow> string \<Rightarrow> string" where
  \<comment> \<open>\<open>path.join(a, b)\<close>: empty arguments are left out\<close>
  "path_join a b =
     (if a = [] \<and> b = [] then ''.''
      else if a = [] then path_normalize b
      else if b = [] then path_normalize a
      else path_normalize (a @ ''/'' @ b))"

section \<open>The configuration parser (\<open>utils/wp-config-parser\<close>)\<close>

record WordPressConfig =
  configPath :: string
  dbHost :: string
  dbName :: string
  dbUser :: string
  dbPassword :: string
  tablePrefix :: string
  wpPath :: string

definition quotes :: "char list" where
  \<comment> \<open>the class \<open>['"]\<close>\<close>
  "quotes = [CHR 0x27, CHR 0x22]"

definition doubleQuotesRegex :: "string \<Rightarrow> re" where
  \<comment> \<open>\<open>define\s*\(\s*['"]${key}['"]\s*,\s*["']([^"']+)["']\s*\)\<close> with the flag \<open>i\<close>; the key
      is spliced in as a sequence of literal characters, which is what the source's
      template does for the keys it passes (letters and underscores)\<close>
  "doubleQuotesRegex key =
     seq [lits ''define'', Star Space, Atom (Lit CHR ''(''), Star Space,
          Atom (AnyOf quotes), lits key, Atom (AnyOf quotes), Star Space,
          Atom (Lit CHR '',''), Star Space, Atom (AnyOf quotes),
          Grp (Plus (NoneOf quotes)), Atom (AnyOf quotes), Star Space,
          Atom (Lit CHR '')'')]"

definition tablePrefixRegex :: re where
  \<comment> \<open>\<open>\$table_prefix\s*=\s*['"]([^'"]+)['"]\<close> with the flag \<open>i\<close>\<close>
  "tablePrefixRegex =
     seq [lits ''$table_prefix'', Star Space, Atom (Lit CHR ''=''), Star Space,
          Atom (AnyOf quotes), Grp (Plus (NoneOf quotes)), Atom (AnyOf quotes)]"

definition group1 :: "string list option \<Rightarrow> string" where
  \<comment> \<open>\<open>m && m[1]\<close> as a string: empty when there is no match\<close>
  "group1 m = (case m of Some (_ # g # _) \<Rightarrow> g | _ \<Rightarrow> [])"

definition extractConfigValue :: "string \<Rightarrow> string \<Rightarrow> string" where
  "extractConfigValue content key =
     (let doubleQuotesMatch = str_match True (doubleQuotesRegex key) content
      in if group1 doubleQuotesMatch \<noteq> [] then group1 doubleQuotesMatch
         else if key = ''table_prefix'' then
           (let m = str_match True tablePrefixRegex content
            in if group1 m \<noteq> [] then group1 m else ''wp_'')
         else [])"

definition parseWordPressConfig :: "string \<Rightarrow> string \<Rightarrow> WordPressConfig" where
  \<comment> \<open>the second argument is the content read from \<open>configPath\<close>\<close>
  "parseWordPressConfig cfgPath configContent =
     \<lparr> configPath = cfgPath,
       dbHost = js_or (extractConfigValue configContent ''DB_HOST'') ''localhost'',
       dbName = extractConfigValue configContent ''DB_NAME'',
       dbUser = extractConfigValue configContent ''DB_USER'',
       dbPassword = extractConfigValue configContent ''DB_PASSWORD'',
       tablePrefix = js_or (extractConfigValue configContent ''table_prefix'') ''wp_'',
       wpPath = path_dirname cfgPath \<rparr>"

text \<open>
  The two shapes as the specification words them: a call
  \<open>define(<quote>K<quote>, <quote>VALUE<quote>)\<close> and an assignment
  \<open>$table_prefix = <quote>VALUE<quote>\<close>, with any white space between the tokens, any of
  the two quote characters at each place, and letters compared without their case.
\<close>

definition defineCall :: "string \<Rightarrow> string \<Rightarrow> string \<Rightarrow> bool" where
  "defineCall K m v =
     (\<exists>d w1 w2 q1 k q2 w3 w4 q3 q4 w5.
        m = d @ w1 @ ''('' @ w2 @ [q1] @ k @ [q2] @ w3 @ '','' @ w4 @ [q3] @ v @ [q4] @ w5 @ '')''
        \<and> map canonicalize d = map canonicalize ''define''
        \<and> map canonicalize k = map canonicalize K
        \<and> list_all isWhiteSpace (w1 @ w2 @ w3 @ w4 @ w5)
        \<and> set [q1, q2, q3, q4] \<subseteq> set quotes
        \<and> v \<noteq> [] \<and> set v \<inter> set quotes = {})"

definition prefixAssignment :: "string \<Rightarrow> string \<Rightarrow> bool" where
  "prefixAssignment m v =
     (\<exists>n w1 w2 q1 q2.
        m = n @ w1 @ ''='' @ w2 @ [q1] @ v @ [q2]
        \<and> map canonicalize n = map canonicalize ''$table_prefix''
        \<and> list_all isWhiteSpace (w1 @ w2)
        \<and> set [q1, q2] \<subseteq> set quotes
        \<and> v \<noteq> [] \<and> set v \<inter> set quotes = {})"

definition hasDefine :: "string \<Rightarrow> string \<Rightarrow> bool" where
  "hasDefine K c = (\<exists>pre m post v. c = pre @ m @ post \<and> defineCall K m v)"

definition hasPrefixAssignment :: "string \<Rightarrow> bool" where
  "hasPrefixAssignment c = (\<exists>pre m post v. c = pre @ m @ post \<and> prefixAssignment m v)"

section \<open>The manager's state and the ad-hoc translator (\<open>extension.ts\<close>)\<close>

text \<open>
  \<open>WordPressManager\<close> holds the parsed configuration and the connection handle. A handle is
  a number that the database driver hands out.
\<close>

type_synonym handle = nat

record WordPressManager =
  config :: "WordPressConfig option"
  connection :: "handle option"

definition getTablePrefix :: "WordPressManager \<Rightarrow> string option" where
  "getTablePrefix wp = (case config wp of Some c \<Rightarrow> Some (tablePrefix c) | None \<Rightarrow> None)"

text \<open>
  \<open>executeNaturalLanguageQuery\<close> either throws an \<open>Error\<close> with a message or passes one
  statement with its bound parameters to \<open>wpManager.query\<close>.
\<close>

datatype outcome =
    Throw string
  | Query string "string list"

definition likeRegex :: re where
  \<comment> \<open>\<open>like\s+(['"]?)%?([^%'"]+)%?(['"]?)\<close> with the flag \<open>i\<close>\<close>
  "likeRegex =
     seq [lits ''like'', Plus Space, Grp (Opt (AnyOf quotes)), Opt (Lit CHR ''%''),
          Grp (Plus (NoneOf (CHR ''%'' # quotes))), Opt (Lit CHR ''%''),
          Grp (Opt (AnyOf quotes))]"

definition group2 :: "string list option \<Rightarrow> string" where
  "group2 m = (case m of Some (_ # _ # g # _) \<Rightarrow> g | _ \<Rightarrow> [])"

definition likePattern :: "string \<Rightarrow> string" where
  \<comment> \<open>\<open>patternMatch ? patternMatch[2] : ''\<close>\<close>
  "likePattern query = group2 (str_match True likeRegex query)"

definition optionsLikeSql :: "string \<Rightarrow> string" where
  "optionsLikeSql prefix =
     ''SELECT option_id, option_name, option_value '' @ [CHR 0x0A]
     @ replicate 16 (CHR '' '') @ ''FROM '' @ prefix @ ''options '' @ [CHR 0x0A]
     @ replicate 16 (CHR '' '') @ ''WHERE option_name LIKE ? '' @ [CHR 0x0A]
     @ replicate 16 (CHR '' '') @ ''LIMIT 50''"

definition noTablePrefix :: string where
  "noTablePrefix = ''Unable to determine WordPress table prefix''"

definition unrecognizedQuery :: string where
  "unrecognizedQuery = ''Could not understand the query. Try \"find options like %pattern%\"''"

definition executeNaturalLanguageQuery :: "WordPressManager \<Rightarrow> string \<Rightarrow> outcome" where
  "executeNaturalLanguageQuery wpManager query =
     (case getTablePrefix wpManager of
        None \<Rightarrow> Throw noTablePrefix
      | Some prefix \<Rightarrow>
          if prefix = [] then Throw noTablePrefix
          else let lowerQuery = toLowerCase query
               in if str_includes lowerQuery ''option'' \<and> str_includes lowerQuery ''like''
                  then (let pattern = likePattern query
                        in if pattern \<noteq> []
                           then Query (optionsLikeSql prefix) [''%'' @ pattern @ ''%'']
                           else Throw unrecognizedQuery)
                  else Throw unrecognizedQuery)"

text \<open>\<open>containsCI q w\<close>: the text \<open>q\<close> contains the lower-case word \<open>w\<close>, whatever the case of its letters.\<close>

definition containsCI :: "string \<Rightarrow> string \<Rightarrow> bool" where
  "containsCI q w = (\<exists>pre post. toLowerCase q = pre @ w @ post)"

text \<open>An optional quote character and an optional percent sign, as the user may type them.\<close>

definition optQuote :: "string \<Rightarrow> bool" where
  "optQuote x = (x = [] \<or> (\<exists>c\<in>set quotes. x = [c]))"

definition optPercent :: "string \<Rightarrow> bool" where
  "optPercent x = (x = [] \<or> x = ''%'')"

section \<open>The query router (mcp/mcp-provider)\<close>

text \<open>
  The chat request handler answers with a response whose \<open>type\<close> is fixed by the handler
  it calls; \<open>classify\<close> is its chain of tests on the lower-cased prompt. Without a
  configuration the handler answers before any test.
\<close>

datatype intent = database_info | theme_info | plugin_info | general_info | custom_post_types

definition classify :: "string \<Rightarrow> intent" where
  "classify prompt =
     (let query = toLowerCase prompt
      in if str_includes query ''database'' \<or> str_includes query ''db''
            \<or> str_includes query ''username'' \<or> str_includes query ''wp-config''
         then database_info
         else if str_includes query ''theme'' then theme_info
         else if str_includes query ''plugin'' then plugin_info
         else if str_includes query ''post type'' \<or> str_includes query ''cpt''
         then custom_post_types
         else general_info)"

definition wordpressRequestHandler :: "WordPressConfig option \<Rightarrow> string \<Rightarrow> intent option" where
  "wordpressRequestHandler cfg prompt =
     (case cfg of None \<Rightarrow> None | Some _ \<Rightarrow> Some (classify prompt))"

section \<open>The configuration locator (utils/wp-config-finder)\<close>

text \<open>
  \<open>findWordPressConfig(startPath)\<close> walks from \<open>startPath\<close> to its parents. The file
  system is the list of the paths that exist. The loop ends because \<open>path.dirname\<close>
  either returns its argument or a path of smaller measure. Beside the result, the model
  returns the directories in which the loop has looked for the file, in order.
\<close>

lemma dirname_scan_bound:
  "dirname_scan p i b = Some e \<Longrightarrow> 1 \<le> e \<and> e \<le> i \<and> (b \<longrightarrow> e < i)"
proof (induction i arbitrary: b)
  case 0
  then show ?case by simp
next
  case (Suc i)
  show ?case
  proof (cases "p ! Suc i = CHR ''/''")
    case slash: True
    show ?thesis
    proof (cases b)
      case True
      with slash Suc.prems have "dirname_scan p i True = Some e" by simp
      from Suc.IH [OF this] show ?thesis by simp
    next
      case False
      with slash Suc.prems show ?thesis by simp
    qed
  next
    case False
    with Suc.prems have "dirname_scan p i False = Some e" by simp
    from Suc.IH [OF this] show ?thesis by simp
  qed
qed

definition pathMeasure :: "string \<Rightarrow> nat" where
  "pathMeasure p = (if p = ''.'' \<or> p = ''/'' then 0 else length p + 1)"

lemma path_dirname_decreases:
  assumes "path_dirname p \<noteq> p"
  shows "pathMeasure (path_dirname p) < pathMeasure p"
proof (cases "p = []")
  case True
  then show ?thesis by (simp add: path_dirname_def pathMeasure_def)
next
  case False
  show ?thesis
  proof (cases "dirname_scan p (length p - 1) True")
    case None
    with False have d: "path_dirname p = (if hd p = CHR ''/'' then ''/'' else ''.'')"
      by (simp add: path_dirname_def)
    with assms have "p \<noteq> ''.''" "p \<noteq> ''/''" by (auto simp: path_dirname_def)
    with d show ?thesis by (simp add: pathMeasure_def)
  next
    case (Some e)
    from dirname_scan_bound [OF Some] have e: "1 \<le> e" "e < length p - 1" by simp_all
    then have len: "3 \<le> length p" by simp
    then have p: "pathMeasure p = length p + 1" by (auto simp: pathMeasure_def)
    from Some False have d: "path_dirname p = (if hd p = CHR ''/'' \<and> e = 1 then ''//'' else take e p)"
      by (simp add: path_dirname_def)
    have "pathMeasure (take e p) \<le> e + 1"
      using e by (simp add: pathMeasure_def)
    with d e len p show ?thesis by (auto simp: pathMeasure_def)
  qed
qed

function findLoop :: "string list \<Rightarrow> string \<Rightarrow> string \<Rightarrow> string option \<times> string list" where
  "findLoop fs rootPath currentPath =
     (if currentPath = rootPath then (None, [])
      else let configPath = path_join currentPath ''wp-config.php''
           in if configPath \<in> set fs then (Some configPath, [currentPath])
              else let parentPath = path_dirname currentPath
                   in if parentPath = currentPath then (None, [currentPath])
                      else (case findLoop fs rootPath parentPath of
                              (found, examined) \<Rightarrow> (found, currentPath # examined)))"
  by pat_completeness auto
termination
  by (relation "measure (\<lambda>(fs, rootPath, currentPath). pathMeasure currentPath)")
     (auto simp: path_dirname_decreases)

definition findWordPressConfig :: "string list \<Rightarrow> string \<Rightarrow> string option \<times> string list" where
  "findWordPressConfig fs startPath = findLoop fs (path_root startPath) startPath"


section \<open>The manager (mcp/wordpress-manager)\<close>

text \<open>
  The manager works on what lies outside the program: the workspace folders of the editor,
  the files, and the database server. An \<open>environment\<close> holds them. The driver hands out a
  fresh handle for each connection that it opens and keeps the handles that are open.
\<close>

record environment =
  workspaceFolders :: "string list"
  files :: "(string \<times> string) list"        \<comment> \<open>path and content of each file\<close>
  connectError :: "string option"             \<comment> \<open>the error of \<open>mysql.createConnection\<close>, if any\<close>
  queryError :: "string option"               \<comment> \<open>the error of \<open>connection.query\<close>, if any\<close>
  optionsTable :: "(string \<times> string) list" \<comment> \<open>\<open>option_name\<close> and \<open>option_value\<close> of each row\<close>
  postsTable :: "string list"                 \<comment> \<open>\<open>post_type\<close> of each row\<close>

record driver =
  fresh :: handle
  opened :: "handle list"

type_synonym session = "WordPressManager \<times> driver"

text \<open>The statements that the manager sends, and what the database answers.\<close>

datatype statement =
    SelectOption string
      \<comment> \<open>\<open>SELECT option_value FROM <prefix>options WHERE option_name = '<name>'\<close>\<close>
  | SelectCustomPostTypes
      \<comment> \<open>\<open>SELECT DISTINCT post_type FROM <prefix>posts WHERE post_type NOT IN ('post',
          'page', 'attachment', 'revision', 'nav_menu_item') LIMIT 20\<close>\<close>

definition builtinPostTypes :: "string list" where
  "builtinPostTypes = [''post'', ''page'', ''attachment'', ''revision'', ''nav_menu_item'']"

fun answer :: "environment \<Rightarrow> statement \<Rightarrow> string list" where
  \<comment> \<open>Modelled from the SQL text of the two statements: the rows in the order of the table.\<close>
  "answer env (SelectOption name) = map snd (filter (\<lambda>row. fst row = name) (optionsTable env))"
| "answer env SelectCustomPostTypes =
     take 20 (remdups (filter (\<lambda>t. t \<notin> set builtinPostTypes) (postsTable env)))"

definition manager_findWordPressConfig ::
  "environment \<Rightarrow> WordPressManager \<Rightarrow> WordPressManager \<times> WordPressConfig option" where
  \<comment> \<open>the method \<open>WordPressManager.findWordPressConfig\<close>; a file that cannot be read
      raises, and the method catches and returns null\<close>
  "manager_findWordPressConfig env wp =
     (case workspaceFolders env of
        [] \<Rightarrow> (wp, None)
      | workspacePath # _ \<Rightarrow>
          (case fst (findWordPressConfig (map fst (files env)) workspacePath) of
             None \<Rightarrow> (wp, None)
           | Some cfgPath \<Rightarrow>
               (case map_of (files env) cfgPath of
                  None \<Rightarrow> (wp, None)
                | Some content \<Rightarrow>
                    (let c = parseWordPressConfig cfgPath content
                     in (wp\<lparr>config := Some c\<rparr>, Some c)))))"

definition ensureConfig :: "environment \<Rightarrow> WordPressManager \<Rightarrow> WordPressManager" where
  \<comment> \<open>\<open>if (!this.config) { await this.findWordPressConfig(); }\<close>\<close>
  "ensureConfig env wp =
     (if config wp = None then fst (manager_findWordPressConfig env wp) else wp)"

definition connectToDatabase :: "environment \<Rightarrow> session \<Rightarrow> session \<times> bool" where
  "connectToDatabase env s =
     (let wp = ensureConfig env (fst s); drv = snd s
      in if config wp = None then ((wp, drv), False)
         else (case connectError env of
                 Some _ \<Rightarrow> ((wp, drv), False)
               | None \<Rightarrow>
                   ((wp\<lparr>connection := Some (fresh drv)\<rparr>,
                     drv\<lparr>fresh := Suc (fresh drv), opened := fresh drv # opened drv\<rparr>),
                    True)))"

definition query :: "environment \<Rightarrow> session \<Rightarrow> statement \<Rightarrow> session \<times> (string + string list)" where
  "query env s stmt =
     (let (s1, connected) =
            (if connection (fst s) = None then connectToDatabase env s else (s, True))
      in if \<not> connected then (s1, Inl ''Database connection is not established'')
         else (case queryError env of
                 Some e \<Rightarrow> (s1, Inl e)
               | None \<Rightarrow> (s1, Inr (answer env stmt))))"


definition ready :: "environment \<Rightarrow> session \<Rightarrow> bool" where
  \<comment> \<open>the configuration is at hand or can be found, the connection is open or can be
      opened, and the database answers\<close>
  "ready env s =
     (config (ensureConfig env (fst s)) \<noteq> None
      \<and> (connection (fst s) \<noteq> None \<or> connectError env = None)
      \<and> queryError env = None)"

definition trim :: "string \<Rightarrow> string" where
  "trim s = rev (dropWhile isWhiteSpace (rev (dropWhile isWhiteSpace s)))"

definition getActivePlugins :: "environment \<Rightarrow> session \<Rightarrow> session \<times> string list" where
  "getActivePlugins env s =
     (let wp = ensureConfig env (fst s)
      in if config wp = None then ((wp, snd s), [])
         else (case query env (wp, snd s) (SelectOption ''active_plugins'') of
                 (s1, Inl e) \<Rightarrow> (s1, [])
               | (s1, Inr rows) \<Rightarrow>
                   (case rows of
                      [] \<Rightarrow> (s1, [])
                    | serializedPlugins # _ \<Rightarrow>
                        (s1, filter (\<lambda>p. length (trim p) > 0)
                               (split_on CHR '';'' serializedPlugins)))))"


definition initialSession :: session where
  \<comment> \<open>a manager as \<open>new WordPressManager()\<close> leaves it, and a driver without connections\<close>
  "initialSession = (\<lparr>config = None, connection = None\<rparr>, \<lparr>fresh = 0, opened = []\<rparr>)"

definition exampleEnvironment :: environment where
  "exampleEnvironment =
     \<lparr>workspaceFolders = [''/srv/www/site''],
      files = [(''/srv/www/wp-config.php'', ''define('DB_NAME', 'shop');'')],
      connectError = None, queryError = None,
      optionsTable = [(''active_plugins'', ''a/a.php;b/b.php;''),
                      (''cptui_post_types'', ''a:1:{s:4:\"book\";a:0:{}}'')],
      postsTable = [''post'', ''movie'', ''page'', ''movie'', ''recipe'']\<rparr>"

section \<open>Properties of the matcher\<close>

lemma first_Eps: "first ci Eps s = Some ([], s)"
  by (simp add: first_def)

lemma first_Atom: "accepts ci k c \<Longrightarrow> first ci (Atom k) (c # cs) = Some ([], cs)"
  by (simp add: first_def)

lemma star_hd:
  "\<forall>c\<in>set w. accepts ci k c \<Longrightarrow> t = [] \<or> \<not> accepts ci k (hd t) \<Longrightarrow>
   \<exists>xs. star ci k (w @ t) = t # xs"
proof (induction w)
  case Nil
  then show ?case by (cases t) auto
next
  case (Cons a w)
  then obtain xs where "star ci k (w @ t) = t # xs" by auto
  with Cons.prems show ?case by simp
qed

lemma first_Star:
  "\<forall>c\<in>set w. accepts ci k c \<Longrightarrow> t = [] \<or> \<not> accepts ci k (hd t) \<Longrightarrow>
   first ci (Star k) (w @ t) = Some ([], t)"
  using star_hd [of w ci k t] by (auto simp: first_def)

lemma first_Seq:
  assumes "first ci a s = Some (g, t)" and "first ci b t = Some (h, u)"
  shows "first ci (Seq a b) s = Some (g @ h, u)"
proof -
  from assms(1) obtain xs where a: "run ci a s = (g, t) # xs"
    by (auto simp: first_def split: list.splits)
  from assms(2) obtain ys where b: "run ci b t = (h, u) # ys"
    by (auto simp: first_def split: list.splits)
  show ?thesis by (simp add: first_def a b)
qed

lemma first_seq_Cons:
  assumes "first ci r s = Some (g, t)" and "first ci (seq rs) t = Some (h, u)"
  shows "first ci (seq (r # rs)) s = Some (g @ h, u)"
proof (cases rs)
  case Nil
  with assms show ?thesis by (simp add: first_Eps)
next
  case (Cons r' rs')
  with assms show ?thesis by (simp add: first_Seq)
qed

lemma first_Plus:
  assumes "v \<noteq> []" and "\<forall>c\<in>set v. accepts ci k c" and "t = [] \<or> \<not> accepts ci k (hd t)"
  shows "first ci (Plus k) (v @ t) = Some ([], t)"
proof -
  from assms(1) obtain c cs where v: "v = c # cs" by (cases v) auto
  have "first ci (Atom k) (c # cs @ t) = Some ([], cs @ t)"
    using assms(2) v by (simp add: first_Atom)
  moreover have "first ci (Star k) (cs @ t) = Some ([], t)"
    using assms(2,3) v by (intro first_Star) auto
  ultimately show ?thesis
    unfolding Plus_def v using first_Seq by fastforce
qed

lemma first_Grp:
  "first ci a (v @ t) = Some (g, t) \<Longrightarrow> first ci (Grp a) (v @ t) = Some (v # g, t)"
  by (auto simp: first_def split: list.splits)

lemma first_lits:
  "map canonicalize d = map canonicalize p \<Longrightarrow> first True (lits p) (d @ t) = Some ([], t)"
proof (induction p arbitrary: d)
  case Nil
  then show ?case by (simp add: lits_def first_Eps)
next
  case (Cons a p)
  then obtain c cs where d: "d = c # cs" and c: "canonicalize c = canonicalize a"
    and cs: "map canonicalize cs = map canonicalize p"
    by (cases d) auto
  have 1: "first True (Atom (Lit a)) (c # cs @ t) = Some ([], cs @ t)"
    using c by (simp add: first_Atom)
  have 2: "first True (seq (map (\<lambda>c. Atom (Lit c)) p)) (cs @ t) = Some ([], t)"
    using Cons.IH [OF cs] by (simp add: lits_def)
  from first_seq_Cons [OF 1 2] show ?case by (simp add: lits_def d)
qed

declare exec.simps [simp del]

lemma exec_first:
  "first ci r (m @ t) = Some (g, t) \<Longrightarrow> exec ci r (m @ t) = Some (m # g, t)"
  by (subst exec.simps) (auto simp: first_def split: list.splits)


lemma canonicalize_nonletter:
  assumes "(of_char p :: nat) < 65"
  shows "(canonicalize c = p) = (c = p)"
proof
  assume eq: "canonicalize c = p"
  show "c = p"
  proof (rule ccontr)
    assume ne: "c \<noteq> p"
    define n where "n = (of_char c :: nat)"
    from eq ne have rng: "(97 \<le> n \<and> n \<le> 122) \<or> (224 \<le> n \<and> n \<le> 254 \<and> n \<noteq> 247)"
      and p: "p = char_of (n - 32)"
      by (auto simp: canonicalize_def Let_def n_def split: if_splits)
    from p have "(of_char p :: nat) = (n - 32) mod 256" by simp
    with rng assms show False by auto
  qed
next
  assume "c = p"
  with assms show "canonicalize c = p" by (simp add: canonicalize_def Let_def)
qed

lemma canonicalize_quotes [simp]:
  "(canonicalize c \<in> canonicalize ` set quotes) = (c \<in> set quotes)"
proof -
  have 1: "(canonicalize c = CHR 0x27) = (c = CHR 0x27)"
    by (rule canonicalize_nonletter) simp
  have 2: "(canonicalize c = CHR 0x22) = (c = CHR 0x22)"
    by (rule canonicalize_nonletter) simp
  have 3: "canonicalize (CHR 0x27) = CHR 0x27" "canonicalize (CHR 0x22) = CHR 0x22"
    by (simp_all add: canonicalize_def)
  show ?thesis by (auto simp: quotes_def 1 2 3)
qed

lemma accepts_AnyOf_quotes: "accepts True (AnyOf quotes) c = (c \<in> set quotes)"
  by simp

lemma accepts_NoneOf_quotes: "accepts True (NoneOf quotes) c = (c \<notin> set quotes)"
  by simp

lemma first_seq_step:
  assumes "first ci r s = Some (g, t)" and "first ci (seq rs) t = Some (h, u)" and "gh = g @ h"
  shows "first ci (seq (r # rs)) s = Some (gh, u)"
  using first_seq_Cons [OF assms(1,2)] assms(3) by simp

lemma first_seq_Nil: "first ci (seq []) s = Some ([], s)"
  by (simp add: first_Eps)

lemma first_Grp_Plus:
  assumes "v \<noteq> []" and "\<forall>c\<in>set v. accepts ci k c" and "t = [] \<or> \<not> accepts ci k (hd t)"
  shows "first ci (Grp (Plus k)) (v @ t) = Some ([v], t)"
  by (rule first_Grp) (rule first_Plus [OF assms])

lemma first_doubleQuotesRegex:
  assumes d: "map canonicalize d = map canonicalize ''define''"
    and k: "map canonicalize k = map canonicalize K"
    and ws: "\<forall>c\<in>set (w1 @ w2 @ w3 @ w4 @ w5). isWhiteSpace c"
    and qs: "set [q1, q2, q3, q4] \<subseteq> set quotes"
    and v: "v \<noteq> []" "set v \<inter> set quotes = {}"
  shows "first True (doubleQuotesRegex K)
           (d @ w1 @ CHR ''('' # w2 @ q1 # k @ q2 # w3 @ CHR '','' # w4 @ q3 # v @ q4 # w5
              @ CHR '')'' # rest)
         = Some ([v], rest)"
proof -
  have nq: "\<not> isWhiteSpace q" if "q \<in> set quotes" for q
    using that by (auto simp: quotes_def isWhiteSpace_def)
  show ?thesis
    unfolding doubleQuotesRegex_def
    apply (rule first_seq_step, rule first_lits [OF d])
     apply (rule first_seq_step, rule first_Star)
    using ws apply simp
       apply (simp add: isWhiteSpace_def)
      apply (rule first_seq_step, rule first_Atom, simp)
       apply (rule first_seq_step, rule first_Star)
    using ws apply simp
    using qs nq apply simp
        apply (rule first_seq_step, rule first_Atom)
    using qs apply simp
         apply (rule first_seq_step, rule first_lits [OF k])
          apply (rule first_seq_step, rule first_Atom)
    using qs apply simp
           apply (rule first_seq_step, rule first_Star)
    using ws apply simp
             apply (simp add: isWhiteSpace_def)
            apply (rule first_seq_step, rule first_Atom, simp)
             apply (rule first_seq_step, rule first_Star)
    using ws apply simp
    using qs nq apply simp
              apply (rule first_seq_step, rule first_Atom)
    using qs apply simp
               apply (rule first_seq_step, rule first_Grp_Plus [OF v(1)])
    using v(2) apply auto[1]
    using qs apply simp
                apply (rule first_seq_step, rule first_Atom)
    using qs apply simp
                 apply (rule first_seq_step, rule first_Star)
    using ws apply simp
                   apply (simp add: isWhiteSpace_def)
                  apply (rule first_seq_step, rule first_Atom, simp)
                   apply (rule first_seq_Nil)
                  apply simp_all
    done
qed

lemma star_sound: "t \<in> set (star ci k s) \<Longrightarrow> \<exists>m. s = m @ t \<and> list_all (accepts ci k) m"
proof (induction s)
  case Nil
  then show ?case by simp
next
  case (Cons c s)
  show ?case
  proof (cases "t = c # s")
    case True
    then show ?thesis by simp
  next
    case False
    with Cons.prems have acc: "accepts ci k c" and "t \<in> set (star ci k s)"
      by (auto split: if_splits)
    with Cons.IH obtain m where "s = m @ t" "list_all (accepts ci k) m" by blast
    with acc have "c # s = (c # m) @ t \<and> list_all (accepts ci k) (c # m)" by simp
    then show ?thesis by blast
  qed
qed

lemma star_complete: "list_all (accepts ci k) m \<Longrightarrow> t \<in> set (star ci k (m @ t))"
proof (induction m)
  case Nil
  then show ?case by (cases t) auto
next
  case (Cons c m)
  then show ?case by simp
qed

lemma run_sound: "(g, t) \<in> set (run ci r s) \<Longrightarrow> \<exists>m. s = m @ t \<and> lang ci r m g"
proof (induction r arbitrary: s g t)
  case Eps
  then show ?case by simp
next
  case (Atom k)
  then show ?case by (auto split: list.splits if_splits)
next
  case (Star k)
  then show ?case using star_sound by fastforce
next
  case (Opt k)
  then show ?case by (auto split: list.splits if_splits)
next
  case (Seq a b)
  from Seq.prems obtain g1 t1 g2 where a: "(g1, t1) \<in> set (run ci a s)"
    and b: "(g2, t) \<in> set (run ci b t1)" and g: "g = g1 @ g2"
    by auto
  from Seq.IH(1) [OF a] obtain m1 where m1: "s = m1 @ t1" "lang ci a m1 g1" by blast
  from Seq.IH(2) [OF b] obtain m2 where m2: "t1 = m2 @ t" "lang ci b m2 g2" by blast
  from m1 m2 g have "s = (m1 @ m2) @ t \<and> lang ci (Seq a b) (m1 @ m2) g" by auto
  then show ?case by blast
next
  case (Grp a)
  from Grp.prems obtain g' where a: "(g', t) \<in> set (run ci a s)"
    and g: "g = take (length s - length t) s # g'"
    by auto
  from Grp.IH [OF a] obtain m where "s = m @ t" "lang ci a m g'" by blast
  with g show ?case by auto
qed

lemma run_complete: "lang ci r m g \<Longrightarrow> (g, t) \<in> set (run ci r (m @ t))"
proof (induction r arbitrary: m g t)
  case Eps
  then show ?case by simp
next
  case (Atom k)
  then show ?case by auto
next
  case (Star k)
  then show ?case using star_complete by fastforce
next
  case (Opt k)
  then show ?case by auto
next
  case (Seq a b)
  from Seq.prems obtain m1 m2 g1 g2 where m: "m = m1 @ m2" and g: "g = g1 @ g2"
    and a: "lang ci a m1 g1" and b: "lang ci b m2 g2"
    by auto
  from Seq.IH(1) [OF a] have "(g1, m2 @ t) \<in> set (run ci a (m1 @ m2 @ t))" .
  moreover from Seq.IH(2) [OF b] have "(g2, t) \<in> set (run ci b (m2 @ t))" .
  ultimately show ?case unfolding m g by force
next
  case (Grp a)
  from Grp.prems obtain g' where g: "g = m # g'" and a: "lang ci a m g'" by auto
  from Grp.IH [OF a] have "(g', t) \<in> set (run ci a (m @ t))" .
  then show ?case unfolding g by force
qed

lemma exec_hit:
  "run ci r s = (g, t) # xs \<Longrightarrow> exec ci r s = Some (take (length s - length t) s # g, t)"
  by (subst exec.simps) simp

lemma exec_miss_Nil: "run ci r [] = [] \<Longrightarrow> exec ci r [] = None"
  by (subst exec.simps) simp

lemma exec_miss_Cons: "run ci r (c # s) = [] \<Longrightarrow> exec ci r (c # s) = exec ci r s"
  by (subst exec.simps) simp

lemma exec_Some:
  "exec ci r s = Some (a, t) \<Longrightarrow> \<exists>pre m g. a = m # g \<and> s = pre @ m @ t \<and> lang ci r m g"
proof (induction s)
  case Nil
  show ?case
  proof (cases "run ci r []")
    case Nil
    with exec_miss_Nil [OF this] \<open>exec ci r [] = Some (a, t)\<close> show ?thesis by simp
  next
    case (Cons x xs)
    obtain g u where x: "x = (g, u)" by (cases x)
    from exec_hit [of ci r "[]" g u xs] Cons x \<open>exec ci r [] = Some (a, t)\<close>
    have a: "a = [] # g" and u: "u = t" by auto
    from Cons x u have "(g, t) \<in> set (run ci r [])" by simp
    from run_sound [OF this] a show ?thesis by auto
  qed
next
  case (Cons c s)
  show ?case
  proof (cases "run ci r (c # s)")
    case Nil
    from exec_miss_Cons [OF Nil] Cons.prems have "exec ci r s = Some (a, t)" by simp
    from Cons.IH [OF this] obtain pre m g where "a = m # g" "s = pre @ m @ t" "lang ci r m g"
      by blast
    then have "a = m # g \<and> c # s = (c # pre) @ m @ t \<and> lang ci r m g" by simp
    then show ?thesis by blast
  next
    case (Cons x xs)
    obtain g u where x: "x = (g, u)" by (cases x)
    from exec_hit [of ci r "c # s" g u xs] Cons x \<open>exec ci r (c # s) = Some (a, t)\<close>
    have a: "a = take (length (c # s) - length t) (c # s) # g" and u: "u = t"
      by auto
    from Cons x u have "(g, t) \<in> set (run ci r (c # s))" by simp
    from run_sound [OF this] obtain m where "c # s = m @ t" "lang ci r m g" by blast
    with a have "a = m # g \<and> c # s = [] @ m @ t \<and> lang ci r m g" by simp
    then show ?thesis by blast
  qed
qed

lemma exec_None: "exec ci r (pre @ m @ post) = None \<Longrightarrow> \<not> lang ci r m g"
proof (induction pre)
  case Nil
  show ?case
  proof
    assume "lang ci r m g"
    from run_complete [OF this] have "(g, post) \<in> set (run ci r (m @ post))" .
    then obtain x xs where "run ci r (m @ post) = x # xs"
      by (cases "run ci r (m @ post)") auto
    then have "exec ci r (m @ post) \<noteq> None"
      using exec_hit [of ci r "m @ post" "fst x" "snd x" xs] by simp
    with Nil show False by simp
  qed
next
  case (Cons c pre)
  have "exec ci r (pre @ m @ post) = None"
  proof (cases "run ci r (c # pre @ m @ post)")
    case Nil
    from exec_miss_Cons [OF Nil] Cons.prems show ?thesis by simp
  next
    case (Cons x xs)
    then have "exec ci r (c # pre @ m @ post) \<noteq> None"
      using exec_hit [of ci r "c # pre @ m @ post" "fst x" "snd x" xs] by simp
    with \<open>exec ci r ((c # pre) @ m @ post) = None\<close> show ?thesis by simp
  qed
  with Cons.IH show ?case by blast
qed

lemma exec_None_iff:
  "(exec ci r s = None) = (\<forall>pre m post g. s = pre @ m @ post \<longrightarrow> \<not> lang ci r m g)"
proof
  assume none: "exec ci r s = None"
  show "\<forall>pre m post g. s = pre @ m @ post \<longrightarrow> \<not> lang ci r m g"
  proof (intro allI impI)
    fix pre m post g
    assume "s = pre @ m @ post"
    with none have "exec ci r (pre @ m @ post) = None" by simp
    then show "\<not> lang ci r m g" by (rule exec_None)
  qed
next
  assume no: "\<forall>pre m post g. s = pre @ m @ post \<longrightarrow> \<not> lang ci r m g"
  show "exec ci r s = None"
  proof (rule ccontr)
    assume "exec ci r s \<noteq> None"
    then obtain a t where "exec ci r s = Some (a, t)" by (cases "exec ci r s") auto
    from exec_Some [OF this] obtain pre m g where "s = pre @ m @ t" and "lang ci r m g"
      by blast
    with no show False by blast
  qed
qed

lemma lang_seq_Cons:
  "lang ci (seq (r # rs)) m g =
     (\<exists>m1 m2 g1 g2. m = m1 @ m2 \<and> g = g1 @ g2 \<and> lang ci r m1 g1 \<and> lang ci (seq rs) m2 g2)"
  by (cases rs) auto

lemma canonicalize_nonletter_id: "(of_char p :: nat) < 65 \<Longrightarrow> canonicalize p = p"
  by (simp add: canonicalize_def Let_def)

lemma accepts_Lit_nonletter:
  "(of_char p :: nat) < 65 \<Longrightarrow> accepts True (Lit p) c = (c = p)"
  by (simp add: canonicalize_nonletter_id canonicalize_nonletter)

lemma single_append:
  "(\<exists>m1 m2. m = m1 @ m2 \<and> (\<exists>c. m1 = [c] \<and> P c) \<and> Q m2) = (\<exists>c s. m = c # s \<and> P c \<and> Q s)"
proof
  assume "\<exists>m1 m2. m = m1 @ m2 \<and> (\<exists>c. m1 = [c] \<and> P c) \<and> Q m2"
  then show "\<exists>c s. m = c # s \<and> P c \<and> Q s" by auto
next
  assume "\<exists>c s. m = c # s \<and> P c \<and> Q s"
  then obtain c s where "m = [c] @ s" "P c" "Q s" by auto
  then show "\<exists>m1 m2. m = m1 @ m2 \<and> (\<exists>c. m1 = [c] \<and> P c) \<and> Q m2" by blast
qed

lemma seq_AtomD:
  assumes "lang ci (seq (Atom k # rs)) m g"
  shows "\<exists>c s. m = c # s \<and> accepts ci k c \<and> lang ci (seq rs) s g"
proof -
  from assms obtain m1 m2 g1 g2 where "m = m1 @ m2" "g = g1 @ g2" "lang ci (Atom k) m1 g1"
    "lang ci (seq rs) m2 g2"
    unfolding lang_seq_Cons by blast
  then show ?thesis by auto
qed

lemma seq_OptD:
  assumes "lang ci (seq (Opt k # rs)) m g"
  shows "lang ci (seq rs) m g \<or> (\<exists>c s. m = c # s \<and> accepts ci k c \<and> lang ci (seq rs) s g)"
proof -
  from assms obtain m1 m2 g1 g2 where "m = m1 @ m2" "g = g1 @ g2" "lang ci (Opt k) m1 g1"
    "lang ci (seq rs) m2 g2"
    unfolding lang_seq_Cons by blast
  then show ?thesis by auto
qed

lemma seq_StarD:
  assumes "lang ci (seq (Star k # rs)) m g"
  shows "\<exists>w s. m = w @ s \<and> list_all (accepts ci k) w \<and> lang ci (seq rs) s g"
proof -
  from assms obtain m1 m2 g1 g2 where "m = m1 @ m2" "g = g1 @ g2" "lang ci (Star k) m1 g1"
    "lang ci (seq rs) m2 g2"
    unfolding lang_seq_Cons by blast
  then show ?thesis by auto
qed

lemma lang_Plus: "lang ci (Plus k) m g = (m \<noteq> [] \<and> list_all (accepts ci k) m \<and> g = [])"
proof (cases m)
  case Nil
  then show ?thesis by (simp add: Plus_def)
next
  case (Cons c cs)
  have "lang ci (Plus k) (c # cs) g = (accepts ci k c \<and> list_all (accepts ci k) cs \<and> g = [])"
    unfolding Plus_def by (simp add: single_append) blast
  with Cons show ?thesis by simp
qed

lemma seq_PlusD:
  assumes "lang ci (seq (Plus k # rs)) m g"
  shows "\<exists>w s. m = w @ s \<and> w \<noteq> [] \<and> list_all (accepts ci k) w \<and> lang ci (seq rs) s g"
proof -
  from assms obtain m1 m2 g1 g2 where "m = m1 @ m2" "g = g1 @ g2" "lang ci (Plus k) m1 g1"
    "lang ci (seq rs) m2 g2"
    unfolding lang_seq_Cons by blast
  then show ?thesis by (auto simp: lang_Plus)
qed

lemma seq_GrpD:
  assumes "lang ci (seq (Grp r # rs)) m g"
  shows "\<exists>v s h g'. m = v @ s \<and> g = (v # h) @ g' \<and> lang ci r v h \<and> lang ci (seq rs) s g'"
proof -
  from assms obtain m1 m2 g1 g2 where "m = m1 @ m2" "g = g1 @ g2" "lang ci (Grp r) m1 g1"
    "lang ci (seq rs) m2 g2"
    unfolding lang_seq_Cons by blast
  moreover from this(3) obtain h where "g1 = m1 # h" "lang ci r m1 h" by auto
  ultimately show ?thesis by blast
qed

lemma lang_lits: "lang True (lits p) m g = (map canonicalize m = map canonicalize p \<and> g = [])"
proof (induction p arbitrary: m g)
  case Nil
  then show ?case by (simp add: lits_def)
next
  case (Cons a p)
  have "lang True (lits (a # p)) m g =
        (\<exists>m1 m2 g1 g2. m = m1 @ m2 \<and> g = g1 @ g2 \<and> lang True (Atom (Lit a)) m1 g1
            \<and> lang True (lits p) m2 g2)"
    unfolding lits_def list.map by (rule lang_seq_Cons)
  also have "\<dots> = (\<exists>c m2. m = c # m2 \<and> canonicalize c = canonicalize a
                      \<and> map canonicalize m2 = map canonicalize p \<and> g = [])"
    by (simp add: Cons.IH single_append) blast
  also have "\<dots> = (map canonicalize m = map canonicalize (a # p) \<and> g = [])"
    by (cases m) auto
  finally show ?case .
qed

lemma seq_litsD:
  assumes "lang True (seq (lits p # rs)) m g"
  shows "\<exists>d s. m = d @ s \<and> map canonicalize d = map canonicalize p \<and> lang True (seq rs) s g"
proof -
  from assms obtain m1 m2 g1 g2 where "m = m1 @ m2" "g = g1 @ g2" "lang True (lits p) m1 g1"
    "lang True (seq rs) m2 g2"
    unfolding lang_seq_Cons by blast
  then show ?thesis by (auto simp: lang_lits)
qed

lemma list_all_Space: "list_all (accepts ci Space) w = list_all isWhiteSpace w"
  by (simp add: list_all_iff)

lemma list_all_NoneOf_quotes:
  "list_all (accepts True (NoneOf quotes)) v = (set v \<inter> set quotes = {})"
  by (auto simp del: accepts.simps simp add: accepts_NoneOf_quotes list_all_iff)

lemma lang_doubleQuotesRegex_defineCall:
  assumes "lang True (doubleQuotesRegex K) m g"
  shows "\<exists>v. g = [v] \<and> defineCall K m v"
proof -
  from assms have l0: "lang True (seq [lits ''define'', Star Space, Atom (Lit CHR ''(''),
        Star Space, Atom (AnyOf quotes), lits K, Atom (AnyOf quotes), Star Space,
        Atom (Lit CHR '',''), Star Space, Atom (AnyOf quotes), Grp (Plus (NoneOf quotes)),
        Atom (AnyOf quotes), Star Space, Atom (Lit CHR '')'')]) m g"
    by (simp only: doubleQuotesRegex_def)
  from seq_litsD [OF l0] obtain d s1 where m0: "m = d @ s1"
    and d: "map canonicalize d = map canonicalize ''define''" and l1: "lang True (seq [Star Space,
          Atom (Lit CHR ''(''), Star Space, Atom (AnyOf quotes), lits K, Atom (AnyOf quotes),
          Star Space, Atom (Lit CHR '',''), Star Space, Atom (AnyOf quotes),
          Grp (Plus (NoneOf quotes)), Atom (AnyOf quotes), Star Space,
          Atom (Lit CHR '')'')]) s1 g"
    by blast
  from seq_StarD [OF l1] obtain w1 s2 where m1: "s1 = w1 @ s2"
    and w1: "list_all isWhiteSpace w1" and l2: "lang True (seq [Atom (Lit CHR ''(''), Star Space,
          Atom (AnyOf quotes), lits K, Atom (AnyOf quotes), Star Space, Atom (Lit CHR '',''),
          Star Space, Atom (AnyOf quotes), Grp (Plus (NoneOf quotes)), Atom (AnyOf quotes),
          Star Space, Atom (Lit CHR '')'')]) s2 g"
    unfolding list_all_Space by blast
  from seq_AtomD [OF l2] obtain lp s3 where m2: "s2 = lp # s3"
    and alp: "accepts True (Lit CHR ''('') lp" and l3: "lang True (seq [Star Space,
          Atom (AnyOf quotes), lits K, Atom (AnyOf quotes), Star Space, Atom (Lit CHR '',''),
          Star Space, Atom (AnyOf quotes), Grp (Plus (NoneOf quotes)), Atom (AnyOf quotes),
          Star Space, Atom (Lit CHR '')'')]) s3 g"
    by blast
  from alp have lp: "lp = CHR ''(''" by (simp del: accepts.simps add: accepts_Lit_nonletter)
  from seq_StarD [OF l3] obtain w2 s4 where m3: "s3 = w2 @ s4"
    and w2: "list_all isWhiteSpace w2" and l4: "lang True (seq [Atom (AnyOf quotes), lits K,
          Atom (AnyOf quotes), Star Space, Atom (Lit CHR '',''), Star Space, Atom (AnyOf quotes),
          Grp (Plus (NoneOf quotes)), Atom (AnyOf quotes), Star Space,
          Atom (Lit CHR '')'')]) s4 g"
    unfolding list_all_Space by blast
  from seq_AtomD [OF l4] obtain q1 s5 where m4: "s4 = q1 # s5"
    and aq1: "accepts True (AnyOf quotes) q1" and l5: "lang True (seq [lits K,
          Atom (AnyOf quotes), Star Space, Atom (Lit CHR '',''), Star Space, Atom (AnyOf quotes),
          Grp (Plus (NoneOf quotes)), Atom (AnyOf quotes), Star Space,
          Atom (Lit CHR '')'')]) s5 g"
    by blast
  from aq1 have q1: "q1 \<in> set quotes" by (simp only: accepts_AnyOf_quotes)
  from seq_litsD [OF l5] obtain k s6 where m5: "s5 = k @ s6"
    and k: "map canonicalize k = map canonicalize K" and l6: "lang True (seq [Atom (AnyOf quotes),
          Star Space, Atom (Lit CHR '',''), Star Space, Atom (AnyOf quotes),
          Grp (Plus (NoneOf quotes)), Atom (AnyOf quotes), Star Space,
          Atom (Lit CHR '')'')]) s6 g"
    by blast
  from seq_AtomD [OF l6] obtain q2 s7 where m6: "s6 = q2 # s7"
    and aq2: "accepts True (AnyOf quotes) q2" and l7: "lang True (seq [Star Space,
          Atom (Lit CHR '',''), Star Space, Atom (AnyOf quotes), Grp (Plus (NoneOf quotes)),
          Atom (AnyOf quotes), Star Space, Atom (Lit CHR '')'')]) s7 g"
    by blast
  from aq2 have q2: "q2 \<in> set quotes" by (simp only: accepts_AnyOf_quotes)
  from seq_StarD [OF l7] obtain w3 s8 where m7: "s7 = w3 @ s8"
    and w3: "list_all isWhiteSpace w3" and l8: "lang True (seq [Atom (Lit CHR '',''), Star Space,
          Atom (AnyOf quotes), Grp (Plus (NoneOf quotes)), Atom (AnyOf quotes), Star Space,
          Atom (Lit CHR '')'')]) s8 g"
    unfolding list_all_Space by blast
  from seq_AtomD [OF l8] obtain cm s9 where m8: "s8 = cm # s9"
    and acm: "accepts True (Lit CHR '','') cm" and l9: "lang True (seq [Star Space,
          Atom (AnyOf quotes), Grp (Plus (NoneOf quotes)), Atom (AnyOf quotes), Star Space,
          Atom (Lit CHR '')'')]) s9 g"
    by blast
  from acm have cm: "cm = CHR '',''" by (simp del: accepts.simps add: accepts_Lit_nonletter)
  from seq_StarD [OF l9] obtain w4 s10 where m9: "s9 = w4 @ s10"
    and w4: "list_all isWhiteSpace w4" and l10: "lang True (seq [Atom (AnyOf quotes),
          Grp (Plus (NoneOf quotes)), Atom (AnyOf quotes), Star Space,
          Atom (Lit CHR '')'')]) s10 g"
    unfolding list_all_Space by blast
  from seq_AtomD [OF l10] obtain q3 s11 where m10: "s10 = q3 # s11"
    and aq3: "accepts True (AnyOf quotes) q3" and l11: "lang True (seq [Grp (Plus (NoneOf quotes)), Atom (AnyOf quotes), Star Space, Atom (Lit CHR '')'')]) s11 g"
    by blast
  from aq3 have q3: "q3 \<in> set quotes" by (simp only: accepts_AnyOf_quotes)
  from seq_GrpD [OF l11] obtain v s12 h g' where m11: "s11 = v @ s12"
    and g: "g = (v # h) @ g'" and pv: "lang True (Plus (NoneOf quotes)) v h"
    and l12: "lang True (seq [Atom (AnyOf quotes), Star Space, Atom (Lit CHR '')'')]) s12 g'"
    by blast
  from pv have v: "v \<noteq> []" "set v \<inter> set quotes = {}" and h: "h = []"
    by (simp_all add: lang_Plus list_all_NoneOf_quotes)
  from seq_AtomD [OF l12] obtain q4 s13 where m12: "s12 = q4 # s13"
    and aq4: "accepts True (AnyOf quotes) q4" and l13: "lang True (seq [Star Space,
          Atom (Lit CHR '')'')]) s13 g'"
    by blast
  from aq4 have q4: "q4 \<in> set quotes" by (simp only: accepts_AnyOf_quotes)
  from seq_StarD [OF l13] obtain w5 s14 where m13: "s13 = w5 @ s14"
    and w5: "list_all isWhiteSpace w5" and l14: "lang True (seq [Atom (Lit CHR '')'')]) s14 g'"
    unfolding list_all_Space by blast
  from seq_AtomD [OF l14] obtain rp s15 where m14: "s14 = rp # s15"
    and arp: "accepts True (Lit CHR '')'') rp" and l15: "lang True (seq []) s15 g'"
    by blast
  from arp have rp: "rp = CHR '')''" by (simp del: accepts.simps add: accepts_Lit_nonletter)
  from l15 have e: "s15 = []" "g' = []" by simp_all
  have "m = d @ w1 @ ''('' @ w2 @ [q1] @ k @ [q2] @ w3 @ '','' @ w4 @ [q3] @ v @ [q4] @ w5 @ '')''"
    unfolding m0 m1 m2 m3 m4 m5 m6 m7 m8 m9 m10 m11 m12 m13 m14 e lp cm rp by simp
  moreover from w1 w2 w3 w4 w5 have "list_all isWhiteSpace (w1 @ w2 @ w3 @ w4 @ w5)" by simp
  moreover from q1 q2 q3 q4 have "set [q1, q2, q3, q4] \<subseteq> set quotes" by simp
  ultimately have "defineCall K m v"
    unfolding defineCall_def using d k v by blast
  with g h e show ?thesis by simp
qed

lemma defineCall_first:
  assumes "defineCall K m v"
  shows "first True (doubleQuotesRegex K) (m @ rest) = Some ([v], rest)"
proof -
  from assms obtain d w1 w2 q1 k q2 w3 w4 q3 q4 w5 where
    m: "m = d @ w1 @ ''('' @ w2 @ [q1] @ k @ [q2] @ w3 @ '','' @ w4 @ [q3] @ v @ [q4] @ w5 @ '')''"
    and d: "map canonicalize d = map canonicalize ''define''"
    and k: "map canonicalize k = map canonicalize K"
    and ws: "list_all isWhiteSpace (w1 @ w2 @ w3 @ w4 @ w5)"
    and qs: "set [q1, q2, q3, q4] \<subseteq> set quotes"
    and v: "v \<noteq> []" "set v \<inter> set quotes = {}"
    unfolding defineCall_def by blast
  from ws have ws': "\<forall>c\<in>set (w1 @ w2 @ w3 @ w4 @ w5). isWhiteSpace c"
    by (simp add: list_all_iff)
  from first_doubleQuotesRegex [OF d k ws' qs v, of rest] show ?thesis
    unfolding m by simp
qed

lemma defineCall_lang:
  assumes "defineCall K m v"
  shows "lang True (doubleQuotesRegex K) m [v]"
proof -
  from defineCall_first [OF assms, of "[]"]
  have "([v], []) \<in> set (run True (doubleQuotesRegex K) (m @ []))"
    by (auto simp: first_def split: list.splits)
  from run_sound [OF this] show ?thesis by simp
qed

section \<open>Global matching and the custom post types of the manager\<close>







section \<open>Sequences of operations on the manager\<close>









section \<open>Properties of the configuration parser\<close>

lemma lang_tablePrefixRegex_prefixAssignment:
  assumes "lang True (tablePrefixRegex) m g"
  shows "\<exists>v. g = [v] \<and> prefixAssignment m v"
proof -
  from assms have l0: "lang True (seq [lits ''$table_prefix'', Star Space, Atom (Lit CHR ''=''),
        Star Space, Atom (AnyOf quotes), Grp (Plus (NoneOf quotes)), Atom (AnyOf quotes)]) m g"
    by (simp only: tablePrefixRegex_def)
  from seq_litsD [OF l0] obtain n s1 where m0: "m = n @ s1"
    and n: "map canonicalize n = map canonicalize ''$table_prefix''" and l1: "lang True (seq [Star Space, Atom (Lit CHR ''=''), Star Space, Atom (AnyOf quotes), Grp (Plus (NoneOf quotes)), Atom (AnyOf quotes)]) s1 g"
    by blast
  from seq_StarD [OF l1] obtain w1 s2 where m1: "s1 = w1 @ s2"
    and w1: "list_all isWhiteSpace w1" and l2: "lang True (seq [Atom (Lit CHR ''=''), Star Space,
          Atom (AnyOf quotes), Grp (Plus (NoneOf quotes)), Atom (AnyOf quotes)]) s2 g"
    unfolding list_all_Space by blast
  from seq_AtomD [OF l2] obtain eq s3 where m2: "s2 = eq # s3"
    and aeq: "accepts True (Lit CHR ''='') eq" and l3: "lang True (seq [Star Space,
          Atom (AnyOf quotes), Grp (Plus (NoneOf quotes)), Atom (AnyOf quotes)]) s3 g"
    by blast
  from aeq have eq: "eq = CHR ''=''" by (simp del: accepts.simps add: accepts_Lit_nonletter)
  from seq_StarD [OF l3] obtain w2 s4 where m3: "s3 = w2 @ s4"
    and w2: "list_all isWhiteSpace w2" and l4: "lang True (seq [Atom (AnyOf quotes),
          Grp (Plus (NoneOf quotes)), Atom (AnyOf quotes)]) s4 g"
    unfolding list_all_Space by blast
  from seq_AtomD [OF l4] obtain q1 s5 where m4: "s4 = q1 # s5"
    and aq1: "accepts True (AnyOf quotes) q1" and l5: "lang True (seq [Grp (Plus (NoneOf quotes)),
          Atom (AnyOf quotes)]) s5 g"
    by blast
  from aq1 have q1: "q1 \<in> set quotes" by (simp only: accepts_AnyOf_quotes)
  from seq_GrpD [OF l5] obtain v s6 h g' where m5: "s5 = v @ s6"
    and g: "g = (v # h) @ g'" and pv: "lang True (Plus (NoneOf quotes)) v h"
    and l6: "lang True (seq [Atom (AnyOf quotes)]) s6 g'"
    by blast
  from pv have v: "v \<noteq> []" "set v \<inter> set quotes = {}" and h: "h = []"
    by (simp_all add: lang_Plus list_all_NoneOf_quotes)
  from seq_AtomD [OF l6] obtain q2 s7 where m6: "s6 = q2 # s7"
    and aq2: "accepts True (AnyOf quotes) q2" and l7: "lang True (seq []) s7 g'"
    by blast
  from aq2 have q2: "q2 \<in> set quotes" by (simp only: accepts_AnyOf_quotes)
  from l7 have e: "s7 = []" "g' = []" by simp_all
  have "m = n @ w1 @ ''='' @ w2 @ [q1] @ v @ [q2]"
    unfolding m0 m1 m2 m3 m4 m5 m6 e eq by simp
  moreover from w1 w2 have "list_all isWhiteSpace (w1 @ w2)" by simp
  moreover from q1 q2 have "set [q1, q2] \<subseteq> set quotes" by simp
  ultimately have "prefixAssignment m v"
    unfolding prefixAssignment_def using n v by blast
  with g h e show ?thesis by simp
qed


lemma first_tablePrefixRegex:
  assumes n: "map canonicalize n = map canonicalize ''$table_prefix''"
    and ws: "\<forall>c\<in>set (w1 @ w2). isWhiteSpace c"
    and qs: "set [q1, q2] \<subseteq> set quotes"
    and v: "v \<noteq> []" "set v \<inter> set quotes = {}"
  shows "first True tablePrefixRegex (n @ w1 @ CHR ''='' # w2 @ q1 # v @ q2 # rest)
         = Some ([v], rest)"
proof -
  have nq: "\<not> isWhiteSpace q" if "q \<in> set quotes" for q
    using that by (auto simp: quotes_def isWhiteSpace_def)
  have f7: "first True (seq []) rest = Some ([], rest)"
    by (rule first_seq_Nil)
  have f6: "first True (seq [Atom (AnyOf quotes)]) (q2 # rest) = Some ([], rest)"
    using qs by (intro first_seq_step [OF first_Atom f7]) simp_all
  have f5: "first True (seq [Grp (Plus (NoneOf quotes)), Atom (AnyOf quotes)]) (v @ q2 # rest)
            = Some ([v], rest)"
    using qs v by (intro first_seq_step [OF first_Grp_Plus f6]) auto
  have f4: "first True (seq [Atom (AnyOf quotes), Grp (Plus (NoneOf quotes)),
              Atom (AnyOf quotes)]) (q1 # v @ q2 # rest) = Some ([v], rest)"
    using qs by (intro first_seq_step [OF first_Atom f5]) simp_all
  have f3: "first True (seq [Star Space, Atom (AnyOf quotes), Grp (Plus (NoneOf quotes)),
              Atom (AnyOf quotes)]) (w2 @ q1 # v @ q2 # rest) = Some ([v], rest)"
    using ws qs nq by (intro first_seq_step [OF first_Star f4]) simp_all
  have f2: "first True (seq [Atom (Lit CHR ''=''), Star Space, Atom (AnyOf quotes),
              Grp (Plus (NoneOf quotes)), Atom (AnyOf quotes)])
              (CHR ''='' # w2 @ q1 # v @ q2 # rest) = Some ([v], rest)"
    by (intro first_seq_step [OF first_Atom f3]) simp_all
  have f1: "first True (seq [Star Space, Atom (Lit CHR ''=''), Star Space, Atom (AnyOf quotes),
              Grp (Plus (NoneOf quotes)), Atom (AnyOf quotes)])
              (w1 @ CHR ''='' # w2 @ q1 # v @ q2 # rest) = Some ([v], rest)"
    using ws by (intro first_seq_step [OF first_Star f2]) (simp_all add: isWhiteSpace_def)
  show ?thesis
    unfolding tablePrefixRegex_def
    by (intro first_seq_step [OF first_lits [OF n] f1]) simp
qed

lemma prefixAssignment_first:
  assumes "prefixAssignment m v"
  shows "first True tablePrefixRegex (m @ rest) = Some ([v], rest)"
proof -
  from assms obtain n w1 w2 q1 q2 where
    m: "m = n @ w1 @ ''='' @ w2 @ [q1] @ v @ [q2]"
    and n: "map canonicalize n = map canonicalize ''$table_prefix''"
    and ws: "list_all isWhiteSpace (w1 @ w2)"
    and qs: "set [q1, q2] \<subseteq> set quotes"
    and v: "v \<noteq> []" "set v \<inter> set quotes = {}"
    unfolding prefixAssignment_def by blast
  from ws have ws': "\<forall>c\<in>set (w1 @ w2). isWhiteSpace c"
    by (simp add: list_all_iff)
  from first_tablePrefixRegex [OF n ws' qs v, of rest] show ?thesis
    unfolding m by simp
qed

lemma prefixAssignment_lang:
  assumes "prefixAssignment m v"
  shows "lang True tablePrefixRegex m [v]"
proof -
  from prefixAssignment_first [OF assms, of "[]"]
  have "([v], []) \<in> set (run True tablePrefixRegex (m @ []))"
    by (auto simp: first_def split: list.splits)
  from run_sound [OF this] show ?thesis by simp
qed

text \<open>What \<open>content.match\<close> returns for the two patterns.\<close>

lemma exec_None_shape:
  assumes sound: "\<And>m g. lang ci r m g \<Longrightarrow> \<exists>v. g = [v] \<and> P m v"
    and complete: "\<And>m v. P m v \<Longrightarrow> lang ci r m [v]"
  shows "(exec ci r c = None) = (\<not> (\<exists>pre m post v. c = pre @ m @ post \<and> P m v))"
proof
  assume none: "exec ci r c = None"
  show "\<not> (\<exists>pre m post v. c = pre @ m @ post \<and> P m v)"
  proof
    assume "\<exists>pre m post v. c = pre @ m @ post \<and> P m v"
    then obtain pre m post v where c: "c = pre @ m @ post" and "P m v" by blast
    from complete [OF this(2)] have "lang ci r m [v]" .
    moreover from none c have "\<not> lang ci r m [v]" using exec_None by blast
    ultimately show False by contradiction
  qed
next
  assume no: "\<not> (\<exists>pre m post v. c = pre @ m @ post \<and> P m v)"
  show "exec ci r c = None"
  proof (rule ccontr)
    assume "exec ci r c \<noteq> None"
    then obtain a t where "exec ci r c = Some (a, t)" by (cases "exec ci r c") auto
    from exec_Some [OF this] obtain pre m g where c: "c = pre @ m @ t" and "lang ci r m g"
      by blast
    from sound [OF this(2)] obtain v where "P m v" by blast
    with c no show False by blast
  qed
qed

lemma match_define_None:
  "(str_match True (doubleQuotesRegex K) c = None) = (\<not> hasDefine K c)"
proof -
  have "(exec True (doubleQuotesRegex K) c = None) = (\<not> hasDefine K c)"
    unfolding hasDefine_def
    by (rule exec_None_shape) (rule lang_doubleQuotesRegex_defineCall, assumption, rule defineCall_lang)
  then show ?thesis by (simp add: str_match_def)
qed

lemma match_define_Some:
  assumes "str_match True (doubleQuotesRegex K) c = Some a"
  shows "\<exists>pre m post v. a = [m, v] \<and> c = pre @ m @ post \<and> defineCall K m v"
proof -
  from assms obtain t where "exec True (doubleQuotesRegex K) c = Some (a, t)"
    by (auto simp: str_match_def)
  from exec_Some [OF this] obtain pre m g where a: "a = m # g" and c: "c = pre @ m @ t"
    and l: "lang True (doubleQuotesRegex K) m g" by blast
  from lang_doubleQuotesRegex_defineCall [OF l] a c show ?thesis by blast
qed

lemma match_prefix_None:
  "(str_match True tablePrefixRegex c = None) = (\<not> hasPrefixAssignment c)"
proof -
  have "(exec True tablePrefixRegex c = None) = (\<not> hasPrefixAssignment c)"
    unfolding hasPrefixAssignment_def
    by (rule exec_None_shape)
       (rule lang_tablePrefixRegex_prefixAssignment, assumption, rule prefixAssignment_lang)
  then show ?thesis by (simp add: str_match_def)
qed

lemma match_prefix_Some:
  assumes "str_match True tablePrefixRegex c = Some a"
  shows "\<exists>pre m post v. a = [m, v] \<and> c = pre @ m @ post \<and> prefixAssignment m v"
proof -
  from assms obtain t where "exec True tablePrefixRegex c = Some (a, t)"
    by (auto simp: str_match_def)
  from exec_Some [OF this] obtain pre m g where a: "a = m # g" and c: "c = pre @ m @ t"
    and l: "lang True tablePrefixRegex m g" by blast
  from lang_tablePrefixRegex_prefixAssignment [OF l] a c show ?thesis by blast
qed

lemma defineCall_nonempty: "defineCall K m v \<Longrightarrow> v \<noteq> []"
  by (auto simp: defineCall_def)

lemma prefixAssignment_nonempty: "prefixAssignment m v \<Longrightarrow> v \<noteq> []"
  by (auto simp: prefixAssignment_def)

lemma group1_define_cases:
  "(\<not> hasDefine K c \<and> group1 (str_match True (doubleQuotesRegex K) c) = [])
   \<or> (\<exists>pre m post. c = pre @ m @ post
        \<and> defineCall K m (group1 (str_match True (doubleQuotesRegex K) c)))"
proof (cases "str_match True (doubleQuotesRegex K) c")
  case None
  then show ?thesis using match_define_None [of K c] by (simp add: group1_def)
next
  case (Some a)
  from match_define_Some [OF Some] obtain pre m post v where "a = [m, v]" "c = pre @ m @ post"
    "defineCall K m v" by blast
  with Some show ?thesis by (auto simp: group1_def)
qed

lemma group1_prefix_cases:
  "(\<not> hasPrefixAssignment c \<and> group1 (str_match True tablePrefixRegex c) = [])
   \<or> (\<exists>pre m post. c = pre @ m @ post
        \<and> prefixAssignment m (group1 (str_match True tablePrefixRegex c)))"
proof (cases "str_match True tablePrefixRegex c")
  case None
  then show ?thesis using match_prefix_None [of c] by (simp add: group1_def)
next
  case (Some a)
  from match_prefix_Some [OF Some] obtain pre m post v where "a = [m, v]" "c = pre @ m @ post"
    "prefixAssignment m v" by blast
  with Some show ?thesis by (auto simp: group1_def)
qed

lemma group1_define_at_start:
  "defineCall K m v \<Longrightarrow> group1 (str_match True (doubleQuotesRegex K) (m @ post)) = v"
  using exec_first [OF defineCall_first, of K m v post]
  by (simp add: str_match_def group1_def)

lemma group1_prefix_at_start:
  "prefixAssignment m v \<Longrightarrow> group1 (str_match True tablePrefixRegex (m @ post)) = v"
  using exec_first [OF prefixAssignment_first, of m v post]
  by (simp add: str_match_def group1_def)

lemma extractConfigValue_other:
  "K \<noteq> ''table_prefix'' \<Longrightarrow>
   extractConfigValue c K = group1 (str_match True (doubleQuotesRegex K) c)"
  by (simp add: extractConfigValue_def Let_def)

lemma defineCall_example1: "defineCall ''DB_NAME'' ''define('DB_NAME', 'foo')'' ''foo''"
  unfolding defineCall_def
  apply (rule exI [of _ "''define''"], rule exI [of _ "[]"], rule exI [of _ "[]"])
  apply (rule exI [of _ "CHR 0x27"], rule exI [of _ "''DB_NAME''"], rule exI [of _ "CHR 0x27"])
  apply (rule exI [of _ "[]"], rule exI [of _ "'' ''"], rule exI [of _ "CHR 0x27"])
  apply (rule exI [of _ "CHR 0x27"], rule exI [of _ "[]"])
  apply (simp add: quotes_def isWhiteSpace_def)
  done

lemma defineCall_example2: "defineCall ''DB_NAME'' ''define(\"DB_NAME\",\"foo\")'' ''foo''"
  unfolding defineCall_def
  apply (rule exI [of _ "''define''"], rule exI [of _ "[]"], rule exI [of _ "[]"])
  apply (rule exI [of _ "CHR 0x22"], rule exI [of _ "''DB_NAME''"], rule exI [of _ "CHR 0x22"])
  apply (rule exI [of _ "[]"], rule exI [of _ "[]"], rule exI [of _ "CHR 0x22"])
  apply (rule exI [of _ "CHR 0x22"], rule exI [of _ "[]"])
  apply (simp add: quotes_def isWhiteSpace_def)
  done

text \<open>
  C3 (as amended). For each of the keys \<open>DB_NAME\<close>, \<open>DB_USER\<close>, \<open>DB_PASSWORD\<close> and
  \<open>DB_HOST\<close>, \<open>extractConfigValue\<close> returns the empty string exactly when the content
  holds no call \<open>define(<quote>K<quote>, <quote>VALUE<quote>)\<close>; a value it returns is the
  value of such a call in the content; and a content that starts with such a call gives
  the value of that call. In a call each quote is a single or a double quote independently
  of the others, white space between the tokens does not matter, and letters are compared
  without their case in the whole pattern: in \<open>define\<close> and in the key \<open>K\<close> alike.
\<close>

theorem extractConfigValue_define:
  assumes "K \<in> set [''DB_NAME'', ''DB_USER'', ''DB_PASSWORD'', ''DB_HOST'']"
  shows "(extractConfigValue c K = [] \<longleftrightarrow> \<not> hasDefine K c)
       \<and> (extractConfigValue c K \<noteq> [] \<longrightarrow>
            (\<exists>pre m post. c = pre @ m @ post \<and> defineCall K m (extractConfigValue c K)))
       \<and> (\<forall>m v post. defineCall K m v \<longrightarrow> extractConfigValue (m @ post) K = v)"
proof -
  from assms have K: "K \<noteq> ''table_prefix''" by auto
  note e = extractConfigValue_other [OF K]
  have 1: "extractConfigValue c K = [] \<longleftrightarrow> \<not> hasDefine K c"
    using group1_define_cases [of K c] defineCall_nonempty
    unfolding e hasDefine_def by metis
  have 2: "extractConfigValue c K \<noteq> [] \<longrightarrow>
            (\<exists>pre m post. c = pre @ m @ post \<and> defineCall K m (extractConfigValue c K))"
    using group1_define_cases [of K c] unfolding e by blast
  have 3: "\<forall>m v post. defineCall K m v \<longrightarrow> extractConfigValue (m @ post) K = v"
    unfolding e by (simp add: group1_define_at_start)
  from 1 2 3 show ?thesis by blast
qed

theorem extractConfigValue_define_witness:
  "dbName (parseWordPressConfig ''/srv/wp/wp-config.php'' ''define('DB_NAME', 'foo')'') = ''foo''
   \<and> dbName (parseWordPressConfig ''/srv/wp/wp-config.php'' ''define(\"DB_NAME\",\"foo\")'') = ''foo''"
proof -
  have K: "''DB_NAME'' \<in> set [''DB_NAME'', ''DB_USER'', ''DB_PASSWORD'', ''DB_HOST'']" by simp
  from extractConfigValue_define [OF K, of "[]"] defineCall_example1
  have 1: "extractConfigValue (''define('DB_NAME', 'foo')'' @ []) ''DB_NAME'' = ''foo''"
    by blast
  from extractConfigValue_define [OF K, of "[]"] defineCall_example2
  have 2: "extractConfigValue (''define(\"DB_NAME\",\"foo\")'' @ []) ''DB_NAME'' = ''foo''"
    by blast
  from 1 2 show ?thesis by (simp add: parseWordPressConfig_def)
qed

text \<open>
  The sentence of C3 that the key is matched with its case does not hold: the flag \<open>i\<close>
  covers the whole pattern, and \<open>define('db_name', 'foo')\<close> gives the database name \<open>foo\<close>.
\<close>

theorem key_case_counterexample:
  "dbName (parseWordPressConfig ''/srv/wp/wp-config.php'' ''define('db_name', 'foo')'') = ''foo''
   \<and> dbName (parseWordPressConfig ''/srv/wp/wp-config.php'' ''define('db_name', 'foo')'') \<noteq> []"
proof -
  have "extractConfigValue ''define('db_name', 'foo')'' ''DB_NAME'' = ''foo''"
    by code_simp
  then show ?thesis by (simp add: parseWordPressConfig_def)
qed

lemma tablePrefix_unfold:
  "tablePrefix (parseWordPressConfig p c) =
     (if group1 (str_match True (doubleQuotesRegex ''table_prefix'') c) \<noteq> []
      then group1 (str_match True (doubleQuotesRegex ''table_prefix'') c)
      else if group1 (str_match True tablePrefixRegex c) \<noteq> []
      then group1 (str_match True tablePrefixRegex c) else ''wp_'')"
  by (simp add: parseWordPressConfig_def extractConfigValue_def js_or_def Let_def)

lemma hasDefine_group1:
  "hasDefine K c \<Longrightarrow>
   \<exists>pre m post. c = pre @ m @ post
      \<and> defineCall K m (group1 (str_match True (doubleQuotesRegex K) c))"
  using group1_define_cases [of K c] by blast

lemma hasPrefixAssignment_group1:
  "hasPrefixAssignment c \<Longrightarrow>
   \<exists>pre m post. c = pre @ m @ post
      \<and> prefixAssignment m (group1 (str_match True tablePrefixRegex c))"
  using group1_prefix_cases [of c] by blast

lemma no_define_group1:
  "\<not> hasDefine K c \<Longrightarrow> group1 (str_match True (doubleQuotesRegex K) c) = []"
  using match_define_None [of K c] by (simp add: group1_def)

lemma no_prefix_group1:
  "\<not> hasPrefixAssignment c \<Longrightarrow> group1 (str_match True tablePrefixRegex c) = []"
  using match_prefix_None [of c] by (simp add: group1_def)

text \<open>
  C4 (as amended). The table prefix is looked for in two places, in this order. When the
  content holds a call \<open>define(<quote>table_prefix<quote>, <quote>VALUE<quote>)\<close>, the
  prefix is the value of such a call, whatever assignments the content holds. When it
  holds none, and holds an assignment \<open>$table_prefix = <quote>VALUE<quote>\<close> (any white
  space around \<open>=\<close>, letters compared without their case), the prefix is the value of
  such an assignment. When it holds neither, the prefix is \<open>wp_\<close>. A content that starts
  with the call gives the value of that call, and a content without a call that starts
  with the assignment gives the value of that assignment.
\<close>

theorem tablePrefix_extraction:
  "(hasDefine ''table_prefix'' c \<longrightarrow>
      (\<exists>pre m post. c = pre @ m @ post
         \<and> defineCall ''table_prefix'' m (tablePrefix (parseWordPressConfig p c))))
   \<and> (\<not> hasDefine ''table_prefix'' c \<and> hasPrefixAssignment c \<longrightarrow>
      (\<exists>pre m post. c = pre @ m @ post
         \<and> prefixAssignment m (tablePrefix (parseWordPressConfig p c))))
   \<and> (\<not> hasDefine ''table_prefix'' c \<and> \<not> hasPrefixAssignment c \<longrightarrow>
      tablePrefix (parseWordPressConfig p c) = ''wp_'')
   \<and> (\<forall>m v post. defineCall ''table_prefix'' m v \<longrightarrow>
      tablePrefix (parseWordPressConfig p (m @ post)) = v)
   \<and> (\<forall>m v post. prefixAssignment m v \<and> \<not> hasDefine ''table_prefix'' (m @ post) \<longrightarrow>
      tablePrefix (parseWordPressConfig p (m @ post)) = v)"
proof (intro conjI allI impI)
  assume h: "hasDefine ''table_prefix'' c"
  from hasDefine_group1 [OF h] obtain pre m post where c: "c = pre @ m @ post"
    and d: "defineCall ''table_prefix'' m
              (group1 (str_match True (doubleQuotesRegex ''table_prefix'') c))"
    by blast
  from defineCall_nonempty [OF d] have "tablePrefix (parseWordPressConfig p c)
      = group1 (str_match True (doubleQuotesRegex ''table_prefix'') c)"
    by (simp add: tablePrefix_unfold)
  with c d show "\<exists>pre m post. c = pre @ m @ post
         \<and> defineCall ''table_prefix'' m (tablePrefix (parseWordPressConfig p c))"
    by auto
next
  assume "\<not> hasDefine ''table_prefix'' c \<and> hasPrefixAssignment c"
  then have n: "\<not> hasDefine ''table_prefix'' c" and h: "hasPrefixAssignment c" by simp_all
  from hasPrefixAssignment_group1 [OF h] obtain pre m post where c: "c = pre @ m @ post"
    and a: "prefixAssignment m (group1 (str_match True tablePrefixRegex c))"
    by blast
  from prefixAssignment_nonempty [OF a] no_define_group1 [OF n]
  have "tablePrefix (parseWordPressConfig p c) = group1 (str_match True tablePrefixRegex c)"
    by (simp add: tablePrefix_unfold)
  with c a show "\<exists>pre m post. c = pre @ m @ post
         \<and> prefixAssignment m (tablePrefix (parseWordPressConfig p c))"
    by auto
next
  assume "\<not> hasDefine ''table_prefix'' c \<and> \<not> hasPrefixAssignment c"
  then show "tablePrefix (parseWordPressConfig p c) = ''wp_''"
    by (simp add: tablePrefix_unfold no_define_group1 no_prefix_group1)
next
  fix m v post
  assume d: "defineCall ''table_prefix'' m v"
  from defineCall_nonempty [OF d] group1_define_at_start [OF d, of post]
  show "tablePrefix (parseWordPressConfig p (m @ post)) = v"
    by (simp add: tablePrefix_unfold)
next
  fix m v post
  assume "prefixAssignment m v \<and> \<not> hasDefine ''table_prefix'' (m @ post)"
  then have a: "prefixAssignment m v" and n: "\<not> hasDefine ''table_prefix'' (m @ post)"
    by simp_all
  from prefixAssignment_nonempty [OF a] group1_prefix_at_start [OF a, of post]
    no_define_group1 [OF n]
  show "tablePrefix (parseWordPressConfig p (m @ post)) = v"
    by (simp add: tablePrefix_unfold)
qed

lemma defineCall_example3: "defineCall ''table_prefix'' ''define('table_prefix','X')'' ''X''"
  unfolding defineCall_def
  apply (rule exI [of _ "''define''"], rule exI [of _ "[]"], rule exI [of _ "[]"])
  apply (rule exI [of _ "CHR 0x27"], rule exI [of _ "''table_prefix''"], rule exI [of _ "CHR 0x27"])
  apply (rule exI [of _ "[]"], rule exI [of _ "[]"], rule exI [of _ "CHR 0x27"])
  apply (rule exI [of _ "CHR 0x27"], rule exI [of _ "[]"])
  apply (simp add: quotes_def isWhiteSpace_def)
  done

lemma prefixAssignment_example: "prefixAssignment ''$table_prefix = \"Y\"'' ''Y''"
  unfolding prefixAssignment_def
  apply (rule exI [of _ "''$table_prefix''"], rule exI [of _ "'' ''"], rule exI [of _ "'' ''"])
  apply (rule exI [of _ "CHR 0x22"], rule exI [of _ "CHR 0x22"])
  apply (simp add: quotes_def isWhiteSpace_def)
  done

theorem tablePrefix_extraction_witness:
  "tablePrefix (parseWordPressConfig ''/srv/wp/wp-config.php''
      ''define('table_prefix','X'); $table_prefix = 'Z';'') = ''X''
   \<and> tablePrefix (parseWordPressConfig ''/srv/wp/wp-config.php'' ''$table_prefix = \"Y\";'') = ''Y''
   \<and> tablePrefix (parseWordPressConfig ''/srv/wp/wp-config.php'' ''<?php'') = ''wp_''"
proof -
  let ?p = "''/srv/wp/wp-config.php''"
  note t = tablePrefix_extraction
  from t [of "[]" ?p] defineCall_example3
  have 1: "tablePrefix (parseWordPressConfig ?p
      (''define('table_prefix','X')'' @ ''; $table_prefix = 'Z';'')) = ''X''"
    by blast
  have "str_match True (doubleQuotesRegex ''table_prefix'') (''$table_prefix = \"Y\"'' @ '';'') = None"
    by code_simp
  then have n2: "\<not> hasDefine ''table_prefix'' (''$table_prefix = \"Y\"'' @ '';'')"
    by (simp add: match_define_None)
  from t [of "[]" ?p] prefixAssignment_example n2
  have 2: "tablePrefix (parseWordPressConfig ?p (''$table_prefix = \"Y\"'' @ '';'')) = ''Y''"
    by blast
  have "str_match True (doubleQuotesRegex ''table_prefix'') ''<?php'' = None"
    by code_simp
  then have n3: "\<not> hasDefine ''table_prefix'' ''<?php''"
    by (simp add: match_define_None)
  have "str_match True tablePrefixRegex ''<?php'' = None"
    by code_simp
  then have a3: "\<not> hasPrefixAssignment ''<?php''"
    by (simp add: match_prefix_None)
  from t [of "''<?php''" ?p] n3 a3
  have 3: "tablePrefix (parseWordPressConfig ?p ''<?php'') = ''wp_''"
    by blast
  from 1 2 3 show ?thesis by simp
qed

text \<open>
  C4 as it was stated fails: for a content with both \<open>define('table_prefix','X')\<close> and
  \<open>$table_prefix = 'Y'\<close> the parsed prefix is \<open>X\<close>, since \<open>extractConfigValue\<close> tries the
  \<open>define\<close> pattern first for every key.
\<close>

theorem define_before_assignment_counterexample:
  "tablePrefix (parseWordPressConfig ''/srv/wp/wp-config.php''
      ''define('table_prefix','X'); $table_prefix = 'Y';'') = ''X''
   \<and> tablePrefix (parseWordPressConfig ''/srv/wp/wp-config.php''
      ''define('table_prefix','X'); $table_prefix = 'Y';'') \<noteq> ''Y''"
proof -
  have "extractConfigValue ''define('table_prefix','X'); $table_prefix = 'Y';'' ''table_prefix''
        = ''X''"
    by code_simp
  then show ?thesis by (simp add: parseWordPressConfig_def js_or_def)
qed

text \<open>
  C7 (as amended). Parsing is total. A content with no \<open>define\<close> call for \<open>DB_HOST\<close>
  gives \<open>dbHost = localhost\<close>; a content with neither a \<open>define\<close> call for
  \<open>table_prefix\<close> nor a \<open>$table_prefix\<close> assignment gives \<open>tablePrefix = wp_\<close>; and the
  table prefix is never empty.
\<close>

theorem parse_defaults:
  "(\<not> hasDefine ''DB_HOST'' c \<longrightarrow> dbHost (parseWordPressConfig p c) = ''localhost'')
   \<and> (\<not> hasDefine ''table_prefix'' c \<and> \<not> hasPrefixAssignment c \<longrightarrow>
        tablePrefix (parseWordPressConfig p c) = ''wp_'')
   \<and> tablePrefix (parseWordPressConfig p c) \<noteq> []"
proof (intro conjI impI)
  assume "\<not> hasDefine ''DB_HOST'' c"
  from no_define_group1 [OF this] show "dbHost (parseWordPressConfig p c) = ''localhost''"
    by (simp add: parseWordPressConfig_def extractConfigValue_def js_or_def)
next
  assume "\<not> hasDefine ''table_prefix'' c \<and> \<not> hasPrefixAssignment c"
  then show "tablePrefix (parseWordPressConfig p c) = ''wp_''"
    by (simp add: tablePrefix_unfold no_define_group1 no_prefix_group1)
next
  show "tablePrefix (parseWordPressConfig p c) \<noteq> []"
    by (simp add: tablePrefix_unfold)
qed

theorem parse_defaults_witness:
  "dbHost (parseWordPressConfig ''/srv/wp/wp-config.php'' ''<?php // empty'') = ''localhost''
   \<and> tablePrefix (parseWordPressConfig ''/srv/wp/wp-config.php'' ''<?php // empty'') = ''wp_''
   \<and> tablePrefix (parseWordPressConfig ''/srv/wp/wp-config.php'' ''<?php // empty'') \<noteq> []"
proof -
  let ?c = "''<?php // empty''"
  have "str_match True (doubleQuotesRegex ''DB_HOST'') ?c = None" by code_simp
  then have h: "\<not> hasDefine ''DB_HOST'' ?c" by (simp add: match_define_None)
  have "str_match True (doubleQuotesRegex ''table_prefix'') ?c = None" by code_simp
  then have d: "\<not> hasDefine ''table_prefix'' ?c" by (simp add: match_define_None)
  have "str_match True tablePrefixRegex ?c = None" by code_simp
  then have a: "\<not> hasPrefixAssignment ?c" by (simp add: match_prefix_None)
  from parse_defaults [of ?c "''/srv/wp/wp-config.php''"] h d a show ?thesis by blast
qed

text \<open>
  C7 as it was stated fails in its second part: a content without any \<open>$table_prefix\<close>
  assignment can still give a prefix other than \<open>wp_\<close>, through a \<open>define\<close> call.
\<close>

theorem prefix_default_counterexample:
  "str_match True tablePrefixRegex ''define(\"table_prefix\", \"wp7_\");'' = None
   \<and> \<not> hasPrefixAssignment ''define(\"table_prefix\", \"wp7_\");''
   \<and> tablePrefix (parseWordPressConfig ''/srv/wp/wp-config.php''
        ''define(\"table_prefix\", \"wp7_\");'') = ''wp7_''
   \<and> tablePrefix (parseWordPressConfig ''/srv/wp/wp-config.php''
        ''define(\"table_prefix\", \"wp7_\");'') \<noteq> ''wp_''"
proof -
  let ?c = "''define(\"table_prefix\", \"wp7_\");''"
  have 1: "str_match True tablePrefixRegex ?c = None" by code_simp
  then have 2: "\<not> hasPrefixAssignment ?c" by (simp add: match_prefix_None)
  have "extractConfigValue ?c ''table_prefix'' = ''wp7_''" by code_simp
  then have 3: "tablePrefix (parseWordPressConfig ''/srv/wp/wp-config.php'' ?c) = ''wp7_''"
    by (simp add: parseWordPressConfig_def js_or_def)
  from 1 2 3 show ?thesis by simp
qed

section \<open>Properties of the ad-hoc translator\<close>

lemma isPrefixOf_iff: "isPrefixOf p s = (\<exists>post. s = p @ post)"
  by (induction p s rule: isPrefixOf.induct) auto

lemma str_includes_iff: "str_includes s sub = (\<exists>pre post. s = pre @ sub @ post)"
proof (induction s)
  case Nil
  then show ?case by simp
next
  case (Cons c cs)
  have "(\<exists>pre post. c # cs = pre @ sub @ post)
        = ((\<exists>post. c # cs = sub @ post) \<or> (\<exists>pre post. cs = pre @ sub @ post))"
  proof
    assume "\<exists>pre post. c # cs = pre @ sub @ post"
    then obtain pre post where e: "c # cs = pre @ sub @ post" by blast
    show "(\<exists>post. c # cs = sub @ post) \<or> (\<exists>pre post. cs = pre @ sub @ post)"
    proof (cases pre)
      case Nil
      with e show ?thesis by auto
    next
      case (Cons a pre')
      with e have "cs = pre' @ sub @ post" by simp
      then show ?thesis by blast
    qed
  next
    assume "(\<exists>post. c # cs = sub @ post) \<or> (\<exists>pre post. cs = pre @ sub @ post)"
    then show "\<exists>pre post. c # cs = pre @ sub @ post"
    proof
      assume "\<exists>post. c # cs = sub @ post"
      then obtain post where "c # cs = [] @ sub @ post" by auto
      then show ?thesis by blast
    next
      assume "\<exists>pre post. cs = pre @ sub @ post"
      then obtain pre post where "c # cs = (c # pre) @ sub @ post" by auto
      then show ?thesis by blast
    qed
  qed
  with Cons.IH show ?case by (simp add: isPrefixOf_iff)
qed

lemma accepts_NoneOf_percent_quotes:
  "accepts True (NoneOf (CHR ''%'' # quotes)) c = (c \<notin> set (CHR ''%'' # quotes))"
proof -
  have "(canonicalize c = CHR ''%'') = (c = CHR ''%'')"
    by (rule canonicalize_nonletter) simp
  moreover have "canonicalize (CHR ''%'') = CHR ''%''"
    by (simp add: canonicalize_def)
  ultimately show ?thesis by simp
qed

lemma lang_Opt_captures: "lang ci (Opt k) v h \<Longrightarrow> h = []"
  by simp

lemma lang_likeRegex_groups:
  assumes "lang True likeRegex m g"
  shows "\<exists>g1 t g3. g = [g1, t, g3] \<and> t \<noteq> [] \<and> set t \<inter> set (CHR ''%'' # quotes) = {}"
proof -
  from assms have l0: "lang True (seq [lits ''like'', Plus Space, Grp (Opt (AnyOf quotes)),
      Opt (Lit CHR ''%''), Grp (Plus (NoneOf (CHR ''%'' # quotes))), Opt (Lit CHR ''%''),
      Grp (Opt (AnyOf quotes))]) m g"
    by (simp only: likeRegex_def)
  from seq_litsD [OF l0] obtain s1 where l1: "lang True (seq [Plus Space,
      Grp (Opt (AnyOf quotes)), Opt (Lit CHR ''%''), Grp (Plus (NoneOf (CHR ''%'' # quotes))),
      Opt (Lit CHR ''%''), Grp (Opt (AnyOf quotes))]) s1 g"
    by blast
  from seq_PlusD [OF l1] obtain s2 where l2: "lang True (seq [Grp (Opt (AnyOf quotes)),
      Opt (Lit CHR ''%''), Grp (Plus (NoneOf (CHR ''%'' # quotes))), Opt (Lit CHR ''%''),
      Grp (Opt (AnyOf quotes))]) s2 g"
    by blast
  from seq_GrpD [OF l2] obtain g1 s3 h1 r1 where g: "g = (g1 # h1) @ r1"
    and o1: "lang True (Opt (AnyOf quotes)) g1 h1"
    and l3: "lang True (seq [Opt (Lit CHR ''%''), Grp (Plus (NoneOf (CHR ''%'' # quotes))),
      Opt (Lit CHR ''%''), Grp (Opt (AnyOf quotes))]) s3 r1"
    by blast
  from seq_OptD [OF l3] obtain s4 where l4: "lang True (seq [Grp (Plus (NoneOf
      (CHR ''%'' # quotes))), Opt (Lit CHR ''%''), Grp (Opt (AnyOf quotes))]) s4 r1"
    by blast
  from seq_GrpD [OF l4] obtain t s5 h2 r2 where r1: "r1 = (t # h2) @ r2"
    and p: "lang True (Plus (NoneOf (CHR ''%'' # quotes))) t h2"
    and l5: "lang True (seq [Opt (Lit CHR ''%''), Grp (Opt (AnyOf quotes))]) s5 r2"
    by blast
  from seq_OptD [OF l5] obtain s6 where l6: "lang True (seq [Grp (Opt (AnyOf quotes))]) s6 r2"
    by blast
  from seq_GrpD [OF l6] obtain g3 s7 h3 r3 where r2: "r2 = (g3 # h3) @ r3"
    and o3: "lang True (Opt (AnyOf quotes)) g3 h3"
    and l7: "lang True (seq []) s7 r3"
    by blast
  from l7 have r3: "r3 = []" by simp
  from p have t: "t \<noteq> []" "list_all (accepts True (NoneOf (CHR ''%'' # quotes))) t"
    and h2: "h2 = []"
    by (simp_all add: lang_Plus)
  from t(2) have "set t \<inter> set (CHR ''%'' # quotes) = {}"
    unfolding list_all_iff accepts_NoneOf_percent_quotes by blast
  moreover from g r1 r2 r3 h2 lang_Opt_captures [OF o1] lang_Opt_captures [OF o3]
  have "g = [g1, t, g3]" by simp
  ultimately show ?thesis using t(1) by blast
qed

lemma like_match_Some:
  assumes "str_match True likeRegex q = Some a"
  shows "\<exists>m g1 t g3. a = [m, g1, t, g3] \<and> t \<noteq> [] \<and> set t \<inter> set (CHR ''%'' # quotes) = {}"
proof -
  from assms obtain r where "exec True likeRegex q = Some (a, r)"
    by (auto simp: str_match_def)
  from exec_Some [OF this] obtain m g where a: "a = m # g" and l: "lang True likeRegex m g"
    by blast
  from lang_likeRegex_groups [OF l] a show ?thesis by blast
qed

lemma likePattern_cases:
  "(str_match True likeRegex q = None \<and> likePattern q = [])
   \<or> (str_match True likeRegex q \<noteq> None \<and> likePattern q \<noteq> []
       \<and> set (likePattern q) \<inter> set (CHR ''%'' # quotes) = {})"
proof (cases "str_match True likeRegex q")
  case None
  then show ?thesis by (simp add: likePattern_def group2_def)
next
  case (Some a)
  from like_match_Some [OF Some] obtain m g1 t g3 where "a = [m, g1, t, g3]" "t \<noteq> []"
    "set t \<inter> set (CHR ''%'' # quotes) = {}" by blast
  with Some show ?thesis by (simp add: likePattern_def group2_def)
qed



lemma first_Opt:
  assumes "(x = [] \<and> (s = [] \<or> \<not> accepts ci k (hd s))) \<or> (\<exists>c. x = [c] \<and> accepts ci k c)"
  shows "first ci (Opt k) (x @ s) = Some ([], s)"
  using assms by (cases s) (auto simp: first_def)

lemma first_Grp_Opt:
  assumes "(x = [] \<and> (s = [] \<or> \<not> accepts ci k (hd s))) \<or> (\<exists>c. x = [c] \<and> accepts ci k c)"
  shows "first ci (Grp (Opt k)) (x @ s) = Some ([x], s)"
  by (rule first_Grp) (rule first_Opt [OF assms])

lemma first_Grp_Plus_any:
  assumes "v \<noteq> []" and "\<forall>c\<in>set v. accepts ci k c" and "t = [] \<or> \<not> accepts ci k (hd t)"
  shows "first ci (Grp (Plus k)) (v @ t) = Some ([v], t)"
  by (rule first_Grp) (rule first_Plus [OF assms])

lemma accepts_Lit_percent: "accepts True (Lit CHR ''%'') c = (c = CHR ''%'')"
  by (rule accepts_Lit_nonletter) simp

lemma first_likeRegex:
  assumes l: "map canonicalize l = map canonicalize ''like''"
    and w: "w \<noteq> []" "\<forall>c\<in>set w. isWhiteSpace c"
    and oq: "optQuote oq" and op: "optPercent op"
    and t: "t \<noteq> []" "set t \<inter> set (CHR ''%'' # quotes) = {}" "\<not> isWhiteSpace (hd t)"
    and cp: "optPercent cp" and cq: "optQuote cq"
  shows "first True likeRegex (l @ w @ oq @ op @ t @ cp @ cq @ []) = Some ([oq, t, cq], [])"
proof -
  note [simp del] = accepts.simps
  note [simp] = accepts_NoneOf_percent_quotes accepts_AnyOf_quotes accepts_Lit_percent
  obtain a u where tc: "t = a # u" using t(1) by (cases t) auto
  with t have a: "a \<noteq> CHR ''%''" "a \<notin> set quotes" "\<not> isWhiteSpace a" by auto
  have nw: "\<not> isWhiteSpace q" if "q \<in> set quotes" for q
    using that by (auto simp: quotes_def isWhiteSpace_def)
  have np: "\<not> isWhiteSpace (CHR ''%'')" by (simp add: isWhiteSpace_def)
  have pq: "CHR ''%'' \<notin> set quotes" by (simp add: quotes_def)
  have f7: "first True (seq []) [] = Some ([], [])"
    by (rule first_seq_Nil)
  have f6: "first True (seq [Grp (Opt (AnyOf quotes))]) (cq @ []) = Some ([cq], [])"
    using cq by (intro first_seq_step [OF first_Grp_Opt f7]) (auto simp: optQuote_def)
  have f5: "first True (seq [Opt (Lit CHR ''%''), Grp (Opt (AnyOf quotes))]) (cp @ cq @ [])
            = Some ([cq], [])"
    using cp cq pq by (intro first_seq_step [OF first_Opt f6]) (auto simp: optQuote_def optPercent_def)
  have f4: "first True (seq [Grp (Plus (NoneOf (CHR ''%'' # quotes))), Opt (Lit CHR ''%''),
              Grp (Opt (AnyOf quotes))]) (t @ cp @ cq @ []) = Some ([t, cq], [])"
    using t cp cq by (intro first_seq_step [OF first_Grp_Plus_any f5])
      (auto simp: optQuote_def optPercent_def)
  have f3: "first True (seq [Opt (Lit CHR ''%''), Grp (Plus (NoneOf (CHR ''%'' # quotes))),
              Opt (Lit CHR ''%''), Grp (Opt (AnyOf quotes))]) (op @ t @ cp @ cq @ [])
            = Some ([t, cq], [])"
    using op a by (intro first_seq_step [OF first_Opt f4]) (auto simp: optPercent_def tc)
  have f2: "first True (seq [Grp (Opt (AnyOf quotes)), Opt (Lit CHR ''%''),
              Grp (Plus (NoneOf (CHR ''%'' # quotes))), Opt (Lit CHR ''%''),
              Grp (Opt (AnyOf quotes))]) (oq @ op @ t @ cp @ cq @ []) = Some ([oq, t, cq], [])"
    using oq op a pq by (intro first_seq_step [OF first_Grp_Opt f3])
      (auto simp: optQuote_def optPercent_def tc)
  have f1: "first True (seq [Plus Space, Grp (Opt (AnyOf quotes)), Opt (Lit CHR ''%''),
              Grp (Plus (NoneOf (CHR ''%'' # quotes))), Opt (Lit CHR ''%''),
              Grp (Opt (AnyOf quotes))]) (w @ oq @ op @ t @ cp @ cq @ []) = Some ([oq, t, cq], [])"
    using w oq op a nw np by (intro first_seq_step [OF first_Plus f2])
      (auto simp: optQuote_def optPercent_def tc accepts.simps)
  show ?thesis
    unfolding likeRegex_def
    by (intro first_seq_step [OF first_lits [OF l] f1]) simp
qed

lemma canonicalize_l: "(canonicalize c = canonicalize (CHR ''l'')) = (c = CHR ''l'' \<or> c = CHR ''L'')"
proof
  assume eq: "canonicalize c = canonicalize (CHR ''l'')"
  have L: "canonicalize (CHR ''l'') = CHR ''L''" by code_simp
  from eq L have e: "canonicalize c = CHR ''L''" by simp
  define n where "n = (of_char c :: nat)"
  show "c = CHR ''l'' \<or> c = CHR ''L''"
  proof (cases "(97 \<le> n \<and> n \<le> 122) \<or> (224 \<le> n \<and> n \<le> 254 \<and> n \<noteq> 247)")
    case True
    then have "canonicalize c = char_of (n - 32)"
      by (simp add: canonicalize_def Let_def n_def)
    with e have "char_of (n - 32) = CHR ''L''" by simp
    then have "(of_char (char_of (n - 32) :: char) :: nat) = of_char (CHR ''L'')" by simp
    then have m: "(n - 32) mod 256 = 76" by simp
    from True have "n - 32 < 256" by arith
    with m have "n - 32 = 76" by simp
    with True have "n = 108" by arith
    then have "of_char c = (of_char (CHR ''l'') :: nat)" by (simp add: n_def)
    then have "c = CHR ''l''" by (simp only: of_char_eq_iff)
    then show ?thesis by simp
  next
    case False
    then have "canonicalize c = c"
      unfolding canonicalize_def Let_def n_def by (simp only: if_False)
    with e show ?thesis by simp
  qed
next
  have "canonicalize (CHR ''L'') = canonicalize (CHR ''l'')" by code_simp
  moreover assume "c = CHR ''l'' \<or> c = CHR ''L''"
  ultimately show "canonicalize c = canonicalize (CHR ''l'')" by auto
qed

lemma run_likeRegex_miss:
  assumes "c \<noteq> CHR ''l''" and "c \<noteq> CHR ''L''"
  shows "run True likeRegex (c # s) = []"
proof -
  from assms have "\<not> accepts True (Lit CHR ''l'') c"
    by (simp add: canonicalize_l)
  then show ?thesis by (simp add: likeRegex_def lits_def)
qed

lemma exec_likeRegex_skip:
  assumes "CHR ''l'' \<notin> set pre" and "CHR ''L'' \<notin> set pre"
  shows "exec True likeRegex (pre @ s) = exec True likeRegex s"
  using assms
proof (induction pre)
  case Nil
  then show ?case by simp
next
  case (Cons c pre)
  then have "run True likeRegex (c # pre @ s) = []"
    by (intro run_likeRegex_miss) auto
  from exec_miss_Cons [OF this] Cons show ?case by simp
qed

lemma likePattern_stripped:
  assumes pre: "CHR ''l'' \<notin> set pre" "CHR ''L'' \<notin> set pre"
    and oq: "optQuote oq" and op: "optPercent op"
    and t: "t \<noteq> []" "set t \<inter> set (CHR ''%'' # quotes) = {}" "\<not> isWhiteSpace (hd t)"
    and cp: "optPercent cp" and cq: "optQuote cq"
  shows "likePattern (pre @ ''like '' @ oq @ op @ t @ cp @ cq) = t"
proof -
  have "first True likeRegex (''like'' @ '' '' @ oq @ op @ t @ cp @ cq @ []) = Some ([oq, t, cq], [])"
    using oq op t cp cq by (intro first_likeRegex) (simp_all add: isWhiteSpace_def)
  then have "first True likeRegex ((''like '' @ oq @ op @ t @ cp @ cq) @ [])
             = Some ([oq, t, cq], [])"
    by simp
  from exec_first [OF this]
  have "exec True likeRegex (''like '' @ oq @ op @ t @ cp @ cq)
        = Some ([''like '' @ oq @ op @ t @ cp @ cq, oq, t, cq], [])"
    by simp
  with exec_likeRegex_skip [OF pre, of "''like '' @ oq @ op @ t @ cp @ cq"]
  show ?thesis by (simp add: likePattern_def str_match_def group2_def)
qed

lemma includes_find_options_like:
  "str_includes (toLowerCase (''find options like '' @ r)) ''option''"
  "str_includes (toLowerCase (''find options like '' @ r)) ''like''"
proof -
  have l: "toLowerCase ''find options like '' = ''find options like ''" by code_simp
  have "toLowerCase (''find options like '' @ r) = ''find '' @ ''option'' @ (''s like '' @ toLowerCase r)"
    unfolding toLowerCase_def map_append l [unfolded toLowerCase_def] by simp
  then show "str_includes (toLowerCase (''find options like '' @ r)) ''option''"
    unfolding str_includes_iff by blast
  have "toLowerCase (''find options like '' @ r) = ''find options '' @ ''like'' @ ('' '' @ toLowerCase r)"
    unfolding toLowerCase_def map_append l [unfolded toLowerCase_def] by simp
  then show "str_includes (toLowerCase (''find options like '' @ r)) ''like''"
    unfolding str_includes_iff by blast
qed

text \<open>
  C10. Whenever the translator passes a statement to the manager, its only parameter is
  \<open>%t%\<close> for the extracted pattern \<open>t\<close>, which is not empty and holds no percent sign,
  no single quote and no double quote. A question \<open>find options like\<close> followed by a
  pattern that the user has put between optional quotes and optional percent signs binds
  the pattern alone between two percent signs: the user's quotes and percent signs are
  dropped before the wrapping.
\<close>

theorem like_parameter_shape:
  "(executeNaturalLanguageQuery wp q = Query sql params \<longrightarrow>
      (\<exists>t. params = [''%'' @ t @ ''%''] \<and> t = likePattern q \<and> t \<noteq> []
           \<and> CHR ''%'' \<notin> set t \<and> CHR 0x27 \<notin> set t \<and> CHR 0x22 \<notin> set t))
   \<and> (getTablePrefix wp = Some pfx \<and> pfx \<noteq> []
        \<and> optQuote oq \<and> optPercent op
        \<and> t \<noteq> [] \<and> set t \<inter> set (CHR ''%'' # quotes) = {} \<and> \<not> isWhiteSpace (hd t)
        \<and> optPercent cp \<and> optQuote cq \<longrightarrow>
      executeNaturalLanguageQuery wp (''find options like '' @ oq @ op @ t @ cp @ cq)
        = Query (optionsLikeSql pfx) [''%'' @ t @ ''%''])"
proof (intro conjI impI)
  assume q: "executeNaturalLanguageQuery wp q = Query sql params"
  then have p: "params = [''%'' @ likePattern q @ ''%'']" and n: "likePattern q \<noteq> []"
    by (auto simp: executeNaturalLanguageQuery_def Let_def split: option.splits if_splits)
  from n likePattern_cases [of q]
  have "set (likePattern q) \<inter> set (CHR ''%'' # quotes) = {}" by blast
  then have "CHR ''%'' \<notin> set (likePattern q) \<and> CHR 0x27 \<notin> set (likePattern q)
      \<and> CHR 0x22 \<notin> set (likePattern q)"
    by (auto simp: quotes_def)
  with p n show "\<exists>t. params = [''%'' @ t @ ''%''] \<and> t = likePattern q \<and> t \<noteq> []
           \<and> CHR ''%'' \<notin> set t \<and> CHR 0x27 \<notin> set t \<and> CHR 0x22 \<notin> set t"
    by blast
next
  assume a: "getTablePrefix wp = Some pfx \<and> pfx \<noteq> []
        \<and> optQuote oq \<and> optPercent op
        \<and> t \<noteq> [] \<and> set t \<inter> set (CHR ''%'' # quotes) = {} \<and> \<not> isWhiteSpace (hd t)
        \<and> optPercent cp \<and> optQuote cq"
  have pre: "CHR ''l'' \<notin> set ''find options ''" "CHR ''L'' \<notin> set ''find options ''"
    by simp_all
  from a have "likePattern (''find options '' @ ''like '' @ oq @ op @ t @ cp @ cq) = t"
    by (intro likePattern_stripped [OF pre]) simp_all
  then have l: "likePattern (''find options like '' @ oq @ op @ t @ cp @ cq) = t"
    by simp
  from a l includes_find_options_like [of "oq @ op @ t @ cp @ cq"]
  show "executeNaturalLanguageQuery wp (''find options like '' @ oq @ op @ t @ cp @ cq)
        = Query (optionsLikeSql pfx) [''%'' @ t @ ''%'']"
    by (simp add: executeNaturalLanguageQuery_def Let_def)
qed

theorem like_parameter_shape_witness:
  "executeNaturalLanguageQuery
     \<lparr>config = Some (parseWordPressConfig ''/srv/wp/wp-config.php'' ''<?php''), connection = None\<rparr>
     ''find options like \"%mss%\"'' = Query (optionsLikeSql ''wp_'') [''%mss%'']
   \<and> likePattern ''find options like \"%mss%\"'' = ''mss''"
proof -
  let ?wp = "\<lparr>config = Some (parseWordPressConfig ''/srv/wp/wp-config.php'' ''<?php''),
             connection = None\<rparr>"
  let ?q = "''find options like '' @ [CHR 0x22] @ ''%'' @ ''mss'' @ ''%'' @ [CHR 0x22]"
  have "extractConfigValue ''<?php'' ''table_prefix'' = ''wp_''" by code_simp
  then have p: "getTablePrefix ?wp = Some ''wp_''"
    by (simp add: getTablePrefix_def parseWordPressConfig_def js_or_def)
  have h: "optQuote [CHR 0x22]" "optPercent ''%''" "''mss'' \<noteq> []"
    "set ''mss'' \<inter> set (CHR ''%'' # quotes) = {}" "\<not> isWhiteSpace (hd ''mss'')"
    by (simp_all add: optQuote_def optPercent_def quotes_def isWhiteSpace_def)
  have 1: "executeNaturalLanguageQuery ?wp ?q
           = Query (optionsLikeSql ''wp_'') [''%'' @ ''mss'' @ ''%'']"
    by (rule like_parameter_shape [THEN conjunct2, THEN mp]) (use p h in simp)
  from like_parameter_shape [THEN conjunct1, THEN mp, OF 1]
  obtain t where e: "[''%'' @ ''mss'' @ ''%''] = [''%'' @ t @ ''%'']" and t: "t = likePattern ?q"
    by blast
  from e have "t = ''mss''" by simp
  with t have "likePattern ?q = ''mss''" by (simp only:)
  with 1 show ?thesis by simp
qed

lemma includes_containsCI: "str_includes (toLowerCase q) w = containsCI q w"
  by (simp add: containsCI_def str_includes_iff)

section \<open>Properties of the query router\<close>

text \<open>
  C5. \<open>classify\<close> is total and gives one of the five intents, by the first rule that
  applies, each rule a test for a word anywhere in the question, letters compared without
  their case: \<open>database\<close>, \<open>db\<close>, \<open>username\<close> or \<open>wp-config\<close> give \<open>database_info\<close>; else
  \<open>theme\<close> gives \<open>theme_info\<close>; else \<open>plugin\<close> gives \<open>plugin_info\<close>; else \<open>post type\<close> or
  \<open>cpt\<close> give \<open>custom_post_types\<close>; else \<open>general_info\<close>. The empty question gives
  \<open>general_info\<close>, and a question with a database word and \<open>theme\<close> gives
  \<open>database_info\<close>.
\<close>

theorem classify_rules:
  "classify q =
     (if containsCI q ''database'' \<or> containsCI q ''db''
         \<or> containsCI q ''username'' \<or> containsCI q ''wp-config''
      then database_info
      else if containsCI q ''theme'' then theme_info
      else if containsCI q ''plugin'' then plugin_info
      else if containsCI q ''post type'' \<or> containsCI q ''cpt'' then custom_post_types
      else general_info)
   \<and> classify [] = general_info
   \<and> ((containsCI q ''database'' \<or> containsCI q ''db''
         \<or> containsCI q ''username'' \<or> containsCI q ''wp-config'')
        \<and> containsCI q ''theme'' \<longrightarrow> classify q = database_info)
   \<and> wordpressRequestHandler (Some cfg) q = Some (classify q)"
proof -
  have 1: "classify q =
     (if containsCI q ''database'' \<or> containsCI q ''db''
         \<or> containsCI q ''username'' \<or> containsCI q ''wp-config''
      then database_info
      else if containsCI q ''theme'' then theme_info
      else if containsCI q ''plugin'' then plugin_info
      else if containsCI q ''post type'' \<or> containsCI q ''cpt'' then custom_post_types
      else general_info)"
    by (simp only: classify_def Let_def includes_containsCI)
  have 2: "classify [] = general_info"
    by (simp add: classify_def toLowerCase_def)
  from 1 have 3: "(containsCI q ''database'' \<or> containsCI q ''db''
         \<or> containsCI q ''username'' \<or> containsCI q ''wp-config'')
        \<and> containsCI q ''theme'' \<longrightarrow> classify q = database_info"
    by simp
  have 4: "wordpressRequestHandler (Some cfg) q = Some (classify q)"
    by (simp add: wordpressRequestHandler_def)
  from 1 2 3 4 show ?thesis by blast
qed

theorem classify_rules_witness:
  "classify ''Which THEME does the DataBase use?'' = database_info
   \<and> classify ''which theme is active'' = theme_info
   \<and> classify [] = general_info"
proof -
  let ?q = "''Which THEME does the DataBase use?''"
  have t: "toLowerCase ?q = ''which '' @ ''theme'' @ '' does the database use?''"
    "toLowerCase ?q = ''which theme does the '' @ ''database'' @ '' use?''"
    by code_simp+
  have a: "containsCI ?q ''theme''" unfolding containsCI_def using t(1) by blast
  have b: "containsCI ?q ''database''" unfolding containsCI_def using t(2) by blast
  from classify_rules [of ?q] a b have 1: "classify ?q = database_info" by blast
  have 2: "classify ''which theme is active'' = theme_info" by code_simp
  from classify_rules [of "[]"] have 3: "classify [] = general_info" by blast
  from 1 2 3 show ?thesis by blast
qed

section \<open>Properties of the configuration locator\<close>

declare findLoop.simps [simp del]










section \<open>Properties of the manager\<close>

lemma all_after_dropWhile:
  "(\<forall>x\<in>set (dropWhile P xs). P x) = (\<forall>x\<in>set xs. P x)"
proof (induction xs)
  case Nil
  then show ?case by simp
next
  case (Cons a xs)
  then show ?case by (cases "P a") auto
qed

lemma trim_empty_iff: "(trim p = []) = list_all isWhiteSpace p"
proof -
  have "(trim p = []) = (\<forall>x\<in>set (rev (dropWhile isWhiteSpace p)). isWhiteSpace x)"
    unfolding trim_def by (simp only: rev_is_Nil_conv dropWhile_eq_Nil_conv)
  also have "\<dots> = (\<forall>x\<in>set p. isWhiteSpace x)"
    by (simp only: set_rev all_after_dropWhile)
  also have "\<dots> = list_all isWhiteSpace p"
    by (simp only: list_all_iff)
  finally show ?thesis .
qed

lemma split_on_nonempty: "split_on d s \<noteq> []"
  by (induction s) (auto split: list.splits)

lemma join_split_on: "join_with d (split_on d s) = s"
proof (induction s)
  case Nil
  then show ?case by simp
next
  case (Cons c s)
  obtain x xs where x: "split_on d s = x # xs"
    using split_on_nonempty [of d s] by (cases "split_on d s") auto
  show ?case
  proof (cases "c = d")
    case True
    with Cons x show ?thesis by simp
  next
    case False
    with Cons x show ?thesis by (cases xs) auto
  qed
qed

lemma split_on_no_separator: "p \<in> set (split_on d s) \<Longrightarrow> d \<notin> set p"
proof (induction s arbitrary: p)
  case Nil
  then show ?case by simp
next
  case (Cons c s)
  obtain x xs where x: "split_on d s = x # xs"
    using split_on_nonempty [of d s] by (cases "split_on d s") auto
  with Cons.IH have "d \<notin> set x" "\<forall>q\<in>set xs. d \<notin> set q" by auto
  with Cons.prems x show ?case by (auto split: if_splits)
qed

lemma ensureConfig_connection [simp]: "connection (ensureConfig env wp) = connection wp"
  by (auto simp: ensureConfig_def manager_findWordPressConfig_def Let_def
      split: list.splits option.splits)

lemma ensureConfig_idem: "config wp \<noteq> None \<Longrightarrow> ensureConfig env wp = wp"
  by (auto simp: ensureConfig_def)

lemma query_ready:
  assumes "config wp \<noteq> None" and "connection wp \<noteq> None \<or> connectError env = None"
    and "queryError env = None"
  shows "\<exists>s1. query env (wp, drv) stmt = (s1, Inr (answer env stmt))
              \<and> config (fst s1) \<noteq> None \<and> connection (fst s1) \<noteq> None"
proof (cases "connection wp")
  case None
  with assms show ?thesis
    by (simp add: query_def connectToDatabase_def ensureConfig_idem Let_def)
next
  case (Some h)
  with assms show ?thesis by (simp add: query_def)
qed

text \<open>
  C9. When the configuration and the connection can be had and the database answers,
  \<open>getActivePlugins\<close> returns the segments of the stored \<open>active_plugins\<close> value between
  its semicolons, in their order and as they are, without those that are empty or made of
  white space only. The segments joined by semicolons give the stored value back, and no
  segment holds a semicolon. For \<open>a/a.php;b/b.php;\<close> the result is \<open>a/a.php\<close> and
  \<open>b/b.php\<close>.
\<close>

theorem getActivePlugins_split:
  assumes "ready env s" and "answer env (SelectOption ''active_plugins'') = v # others"
  shows "snd (getActivePlugins env s)
           = filter (\<lambda>p. \<not> list_all isWhiteSpace p) (split_on CHR '';'' v)
       \<and> join_with CHR '';'' (split_on CHR '';'' v) = v
       \<and> (\<forall>p\<in>set (split_on CHR '';'' v). CHR '';'' \<notin> set p)
       \<and> (v = ''a/a.php;b/b.php;'' \<longrightarrow> snd (getActivePlugins env s) = [''a/a.php'', ''b/b.php''])"
proof -
  let ?wp = "ensureConfig env (fst s)"
  from assms(1) have c: "config ?wp \<noteq> None"
    and k: "connection ?wp \<noteq> None \<or> connectError env = None" and q: "queryError env = None"
    by (simp_all add: ready_def)
  from query_ready [OF c k q] obtain s1 where
    "query env (?wp, snd s) (SelectOption ''active_plugins'')
       = (s1, Inr (answer env (SelectOption ''active_plugins'')))"
    by blast
  with c assms(2) have 1: "snd (getActivePlugins env s)
           = filter (\<lambda>p. \<not> list_all isWhiteSpace p) (split_on CHR '';'' v)"
    by (auto simp: getActivePlugins_def Let_def trim_empty_iff)
  have 2: "join_with CHR '';'' (split_on CHR '';'' v) = v"
    by (rule join_split_on)
  have 3: "\<forall>p\<in>set (split_on CHR '';'' v). CHR '';'' \<notin> set p"
    using split_on_no_separator by blast
  have "filter (\<lambda>p. \<not> list_all isWhiteSpace p) (split_on CHR '';'' ''a/a.php;b/b.php;'')
        = [''a/a.php'', ''b/b.php'']"
    by code_simp
  with 1 have 4: "v = ''a/a.php;b/b.php;'' \<longrightarrow> snd (getActivePlugins env s) = [''a/a.php'', ''b/b.php'']"
    by simp
  from 1 2 3 4 show ?thesis by blast
qed

theorem getActivePlugins_split_witness:
  "snd (getActivePlugins exampleEnvironment initialSession) = [''a/a.php'', ''b/b.php'']"
proof -
  have r: "ready exampleEnvironment initialSession" by code_simp
  have a: "answer exampleEnvironment (SelectOption ''active_plugins'') = ''a/a.php;b/b.php;'' # []"
    by code_simp
  from getActivePlugins_split [OF r a] show ?thesis by blast
qed











section \<open>Properties of the connection\<close>
















end
